theory Spec2Isabelle
  imports Complex_Main "HOL-Library.Sublist"
begin

section \<open>Mockup generator: a shallow embedding of \<open>generator/main.py\<close>\<close>

text \<open>
  The development follows the script function by function.  Strings are character
  lists, Python integers are \<open>int\<close>, dictionaries are maps or association lists,
  exceptions are values of \<open>py_error\<close> in the left summand of a sum type.
\<close>

type_synonym url = string
type_synonym domain = string
type_synonym mockup_name = string

datatype py_error = KeyError | IndexError | TypeError | ValueError | OSError
  | ZeroDivisionError | OverflowError

subsection \<open>Configuration data\<close>

record coords =
  cx :: int
  cy :: int
  cw :: int
  ch :: int

text \<open>A rule of a domain, with the keys \<open>main\<close> reads from it.  \<open>action\<close> and
  \<open>coords\<close> are read with \<open>.get\<close>, so they may be absent.\<close>

record rule =
  pattern :: string
  action :: "string option"
  rcoords :: "coords option"
  skipWhite :: bool
  skipBlack :: bool
  mockup_sets_to_use :: "mockup_name list"

subsection \<open>Rule matching (lines 240 and 279)\<close>

text \<open>\<open>domain_rules.sort(key=lambda x: len(x['pattern']), reverse=True)\<close>: Python's sort
  is stable, also with \<open>reverse=True\<close>, so it is the stable sort by descending length.\<close>

definition sort_rules :: "rule list \<Rightarrow> rule list" where
  "sort_rules rs = sort_key (\<lambda>r. - int (length (pattern r))) rs"

text \<open>\<open>next((rule for rule in domain_rules if rule["pattern"] in filename), None)\<close>\<close>

definition match_rule :: "rule list \<Rightarrow> string \<Rightarrow> rule option" where
  "match_rule rs filename = find (\<lambda>r. sublist (pattern r) filename) rs"

subsection \<open>The processing window (lines 252 to 263)\<close>

text \<open>The loop over \<open>enumerate(all_urls)\<close>; \<open>i\<close> is the index, \<open>acc\<close> is
  \<open>urls_to_process\<close>.\<close>

fun window_loop :: "int \<Rightarrow> url set \<Rightarrow> nat \<Rightarrow> url list \<Rightarrow> url list \<Rightarrow> url list" where
  "window_loop m stop i [] acc = acc"
| "window_loop m stop i (u # us) acc =
     (if u \<in> stop then acc
      else if int i \<ge> m then acc
      else window_loop m stop (Suc i) us (acc @ [u]))"

definition compute_window :: "int \<Rightarrow> url list \<Rightarrow> url list \<Rightarrow> url list" where
  "compute_window max_urls_per_domain last_processed_urls all_urls =
     window_loop max_urls_per_domain (set last_processed_urls) 0 all_urls []"

subsection \<open>History update (lines 359 to 362)\<close>

text \<open>Python's \<open>xs[:k]\<close>: a negative \<open>k\<close> counts from the end.\<close>

definition slice_to :: "int \<Rightarrow> 'a list \<Rightarrow> 'a list" where
  "slice_to k xs =
     (if 0 \<le> k then take (nat k) xs else take (nat (int (length xs) + k)) xs)"

definition log_get :: "(domain \<rightharpoonup> url list) \<Rightarrow> domain \<Rightarrow> url list" where
  "log_get processed_log d = (case processed_log d of None \<Rightarrow> [] | Some us \<Rightarrow> us)"

definition update_history ::
  "int \<Rightarrow> domain \<Rightarrow> url list \<Rightarrow> (domain \<rightharpoonup> url list) \<Rightarrow> (domain \<rightharpoonup> url list)" where
  "update_history history_to_keep d successfully_processed processed_log =
     (if successfully_processed \<noteq> []
      then processed_log(d \<mapsto> slice_to history_to_keep
                                (successfully_processed @ log_get processed_log d))
      else processed_log)"

subsection \<open>Images and the imaging library\<close>

text \<open>
  An image is its mode, its size and its pixel store, addressed by \<open>(x, y)\<close>.  A pixel
  is \<open>(r, g, b, a)\<close>.  Every image of this program comes from \<open>download_image\<close>,
  which converts to RGBA.  The library operations below follow the documented behaviour
  of Pillow; what the script itself computes is translated from the script.
\<close>

type_synonym pixel = "int \<times> int \<times> int \<times> int"
type_synonym point = "int \<times> int"
type_synonym box = "int \<times> int \<times> int \<times> int"

datatype img_mode = RGBA | RGB

record image =
  mode :: img_mode
  width :: int
  height :: int
  pix :: "point \<Rightarrow> pixel"

definition inside :: "int \<Rightarrow> int \<Rightarrow> point \<Rightarrow> bool" where
  "inside w h p = (0 \<le> fst p \<and> fst p < w \<and> 0 \<le> snd p \<and> snd p < h)"

definition clear :: pixel where
  "clear = (0, 0, 0, 0)"

text \<open>\<open>Image.getbbox()\<close>: the bounding box \<open>(left, upper, right, lower)\<close> of the non-zero
  region, right and lower exclusive, or \<open>None\<close> when there is none.  For an image with an
  alpha channel only the alpha channel counts.\<close>

fun in_bbox :: "img_mode \<Rightarrow> pixel \<Rightarrow> bool" where
  "in_bbox RGBA (r, g, b, a) = (a \<noteq> 0)"
| "in_bbox RGB (r, g, b, a) = (r \<noteq> 0 \<or> g \<noteq> 0 \<or> b \<noteq> 0)"

definition bbox_cols :: "image \<Rightarrow> int list" where
  "bbox_cols im =
     filter (\<lambda>x. \<exists>y \<in> set [0..height im - 1]. in_bbox (mode im) (pix im (x, y)))
            [0..width im - 1]"

definition bbox_rows :: "image \<Rightarrow> int list" where
  "bbox_rows im =
     filter (\<lambda>y. \<exists>x \<in> set [0..width im - 1]. in_bbox (mode im) (pix im (x, y)))
            [0..height im - 1]"

definition getbbox :: "image \<Rightarrow> box option" where
  "getbbox im =
     (if bbox_cols im = [] then None
      else Some (hd (bbox_cols im), hd (bbox_rows im),
                 last (bbox_cols im) + 1, last (bbox_rows im) + 1))"

text \<open>\<open>Image.crop(box)\<close>: a new image of the size of the box; pixels of the box outside
  the source are zero.  A box whose right or lower edge lies before its left or upper
  edge is rejected with \<open>ValueError\<close>.\<close>

definition crop_pixels :: "image \<Rightarrow> int \<Rightarrow> int \<Rightarrow> point \<Rightarrow> pixel" where
  "crop_pixels im x1 y1 =
     (\<lambda>(i, j). if inside (width im) (height im) (x1 + i, y1 + j)
               then pix im (x1 + i, y1 + j) else clear)"

fun crop :: "image \<Rightarrow> box \<Rightarrow> py_error + image" where
  "crop im (x1, y1, x2, y2) =
     (if x2 < x1 \<or> y2 < y1 then Inl ValueError
      else Inr \<lparr>mode = mode im, width = x2 - x1, height = y2 - y1,
                pix = crop_pixels im x1 y1\<rparr>)"

subsection \<open>\<open>get_trimmed_image_with_padding\<close> (lines 21 to 32)\<close>

definition get_trimmed_image_with_padding ::
  "image \<Rightarrow> int \<Rightarrow> int \<Rightarrow> py_error + image option" where
  "get_trimmed_image_with_padding im max_padding_x max_padding_y =
     (case getbbox im of
        None \<Rightarrow> Inr None
      | Some (x1, y1, x2, y2) \<Rightarrow>
          (let new_x1 = max 0 (x1 - max_padding_x);
               new_y1 = max 0 (y1 - max_padding_y);
               new_x2 = min (width im) (x2 + max_padding_x);
               new_y2 = min (height im) (y2 + max_padding_y)
           in case crop im (new_x1, new_y1, new_x2, new_y2) of
                Inl e \<Rightarrow> Inl e
              | Inr c \<Rightarrow> Inr (Some c)))"

text \<open>The call of line 98 uses the default paddings.\<close>

definition trim_default :: "image \<Rightarrow> py_error + image option" where
  "trim_default im = get_trimmed_image_with_padding im 40 20"

text \<open>The bounding box in the words of the specification: the columns and rows that hold
  a pixel which is not fully transparent.\<close>

fun alpha :: "pixel \<Rightarrow> int" where
  "alpha (r, g, b, a) = a"

definition opaque_at :: "image \<Rightarrow> point \<Rightarrow> bool" where
  "opaque_at im p = (inside (width im) (height im) p \<and> alpha (pix im p) \<noteq> 0)"

definition opaque_cols :: "image \<Rightarrow> int set" where
  "opaque_cols im = {x. \<exists>y. opaque_at im (x, y)}"

definition opaque_rows :: "image \<Rightarrow> int set" where
  "opaque_rows im = {y. \<exists>x. opaque_at im (x, y)}"

subsection \<open>Background removal in \<open>process_image\<close> (lines 77 to 95)\<close>

text \<open>The test of line 93, with the seed colour of line 79.\<close>

fun matches :: "pixel \<Rightarrow> pixel \<Rightarrow> bool" where
  "matches (seed_r, seed_g, seed_b, seed_a) (current_r, current_g, current_b, current_a) =
     (\<bar>current_r - seed_r\<bar> < 30 \<and> \<bar>current_g - seed_g\<bar> < 30 \<and> \<bar>current_b - seed_b\<bar> < 30)"

definition grid :: "int \<Rightarrow> int \<Rightarrow> point set" where
  "grid w h = {p. inside w h p}"

lemma finite_grid: "finite (grid w h)"
proof -
  have "grid w h \<subseteq> {0..<w} \<times> {0..<h}"
    by (auto simp: grid_def inside_def)
  then show ?thesis by (rule finite_subset) simp
qed

lemma card_grid_insert:
  assumes "inside w h p" "p \<notin> visited"
  shows "card (grid w h - insert p visited) < card (grid w h - visited)"
proof -
  have "p \<in> grid w h - visited" using assms by (simp add: grid_def)
  moreover have "finite (grid w h - visited)" by (simp add: finite_grid)
  ultimately have "card (grid w h - visited - {p}) < card (grid w h - visited)"
    by (rule card_Diff1_less [rotated])
  moreover have "grid w h - insert p visited = (grid w h - visited) - {p}" by auto
  ultimately show ?thesis by simp
qed

text \<open>The loop of lines 84 to 95.  The head of the list is the top of the Python stack
  (\<open>pop()\<close> takes the last element, \<open>extend\<close> appends, so the neighbour appended last is
  popped first).\<close>

function flood ::
  "int \<Rightarrow> int \<Rightarrow> pixel \<Rightarrow> point list \<Rightarrow> point set \<Rightarrow> (point \<Rightarrow> pixel) \<Rightarrow> (point \<Rightarrow> pixel)" where
  "flood design_w design_h seed [] visited pixels = pixels"
| "flood design_w design_h seed ((x, y) # stack) visited pixels =
     (if (x, y) \<in> visited \<or> \<not> (0 \<le> x \<and> x < design_w \<and> 0 \<le> y \<and> y < design_h)
      then flood design_w design_h seed stack visited pixels
      else if matches seed (pixels (x, y))
      then flood design_w design_h seed
             ((x, y - 1) # (x, y + 1) # (x - 1, y) # (x + 1, y) # stack)
             (insert (x, y) visited) (pixels((x, y) := clear))
      else flood design_w design_h seed stack (insert (x, y) visited) pixels)"
  by pat_completeness auto
termination
proof (relation "measures [\<lambda>(w, h, seed, stack, visited, pixels). card (grid w h - visited),
                           \<lambda>(w, h, seed, stack, visited, pixels). length stack]", goal_cases)
  case 1
  show ?case by simp
next
  case (2 design_w design_h seed x y stack visited pixels)
  then show ?case by simp
next
  case (3 design_w design_h seed x y stack visited pixels)
  then have "inside design_w design_h (x, y)" "(x, y) \<notin> visited"
    by (simp_all add: inside_def)
  then show ?case using card_grid_insert by simp
next
  case (4 design_w design_h seed x y stack visited pixels)
  then have "inside design_w design_h (x, y)" "(x, y) \<notin> visited"
    by (simp_all add: inside_def)
  then show ?case using card_grid_insert by simp
qed

declare flood.simps [simp del]

text \<open>Lines 77 to 95: \<open>getpixel((0, 0))\<close> raises \<open>IndexError\<close> on an image without
  pixels; otherwise the fill runs on the image's own store.\<close>

definition remove_background :: "image \<Rightarrow> py_error + image" where
  "remove_background design_img =
     (if \<not> inside (width design_img) (height design_img) (0, 0) then Inl IndexError
      else Inr (design_img\<lparr>pix := flood (width design_img) (height design_img)
                                    (pix design_img (0, 0)) [(0, 0)] {} (pix design_img)\<rparr>))"

text \<open>Connectivity in the words of the specification: a 4-connected path from the seed
  \<open>(0, 0)\<close> to the pixel, all of whose pixels lie in the image and match the seed
  colour.\<close>

fun adjacent :: "point \<Rightarrow> point \<Rightarrow> bool" where
  "adjacent (x, y) (x', y') =
     ((x' = x + 1 \<and> y' = y) \<or> (x' = x - 1 \<and> y' = y) \<or>
      (x' = x \<and> y' = y + 1) \<or> (x' = x \<and> y' = y - 1))"

definition seed_like :: "image \<Rightarrow> point \<Rightarrow> bool" where
  "seed_like im p = (inside (width im) (height im) p \<and> matches (pix im (0, 0)) (pix im p))"

definition seed_path :: "image \<Rightarrow> point list \<Rightarrow> point \<Rightarrow> bool" where
  "seed_path im ps p =
     (ps \<noteq> [] \<and> hd ps = (0, 0) \<and> last ps = p \<and> list_all (seed_like im) ps
      \<and> successively adjacent ps)"

definition connected :: "image \<Rightarrow> point \<Rightarrow> bool" where
  "connected im p = (\<exists>ps. seed_path im ps p)"

text \<open>The same as an inductive predicate, for the proofs.\<close>

inductive reach :: "image \<Rightarrow> point \<Rightarrow> bool" for im :: image where
  reach_seed: "seed_like im (0, 0) \<Longrightarrow> reach im (0, 0)"
| reach_step: "reach im p \<Longrightarrow> adjacent p q \<Longrightarrow> seed_like im q \<Longrightarrow> reach im q"

text \<open>The invariant of the loop: the store is the original one with the visited matching
  pixels cleared, what is visited and matches is reachable, what is on the stack is
  reachable if it matches, and the neighbours of a visited matching pixel are visited, on
  the stack or outside the image.\<close>

definition flood_inv :: "image \<Rightarrow> point list \<Rightarrow> point set \<Rightarrow> (point \<Rightarrow> pixel) \<Rightarrow> bool" where
  "flood_inv im stack visited pixels =
     (inside (width im) (height im) (0, 0)
      \<and> (\<forall>p. pixels p = (if p \<in> visited \<and> matches (pix im (0, 0)) (pix im p)
                          then clear else pix im p))
      \<and> (\<forall>p \<in> visited. inside (width im) (height im) p \<and> (seed_like im p \<longrightarrow> reach im p))
      \<and> (\<forall>p \<in> set stack. seed_like im p \<longrightarrow> reach im p)
      \<and> (\<forall>p \<in> visited. seed_like im p \<longrightarrow>
            (\<forall>q. adjacent p q \<longrightarrow>
                 q \<in> visited \<or> q \<in> set stack \<or> \<not> inside (width im) (height im) q))
      \<and> ((0, 0) \<in> visited \<or> (0, 0) \<in> set stack))"

subsection \<open>Python floats\<close>

text \<open>
  A finite float is the rational number it denotes.  Every operation of the script that
  yields a float (\<open>int / int\<close> and \<open>int * float\<close>) is correctly rounded to binary64: to
  the nearest number with a 53-bit significand, ties to the even significand, with the
  exponent bounded below as for subnormal numbers.  A result beyond the largest finite
  float is an \<open>OverflowError\<close>: \<open>int / int\<close> raises it itself, and the infinity a
  product would give raises it in \<open>int()\<close>.
\<close>

definition pow2 :: "int \<Rightarrow> rat" where
  "pow2 e = (if 0 \<le> e then 2 ^ nat e else 1 / 2 ^ nat (- e))"

fun bitlen :: "nat \<Rightarrow> nat" where
  "bitlen n = (if n = 0 then 0 else Suc (bitlen (n div 2)))"

declare bitlen.simps [simp del]

text \<open>For \<open>x > 0\<close>, the \<open>e\<close> with \<open>2^e \<le> x < 2^(e+1)\<close>.\<close>

definition floor_log2 :: "rat \<Rightarrow> int" where
  "floor_log2 x =
     (case quotient_of x of (p, q) \<Rightarrow>
        (let k = int (bitlen (nat p)) - int (bitlen (nat q))
         in if pow2 k \<le> x then k else k - 1))"

definition round_half_even :: "rat \<Rightarrow> int" where
  "round_half_even x =
     (let f = \<lfloor>x\<rfloor>; d = x - of_int f
      in if d < 1 / 2 then f else if 1 / 2 < d then f + 1
         else if even f then f else f + 1)"

definition round_double :: "rat \<Rightarrow> py_error + rat" where
  "round_double x =
     (if x = 0 then Inr 0
      else (let a = \<bar>x\<bar>;
                e = max (floor_log2 a - 52) (- 1074);
                r = of_int (round_half_even (a / pow2 e)) * pow2 e
            in if 1024 \<le> floor_log2 r then Inl OverflowError
               else Inr (if x < 0 then - r else r)))"

text \<open>\<open>a / b\<close> on integers.\<close>

definition true_div :: "int \<Rightarrow> int \<Rightarrow> py_error + rat" where
  "true_div a b =
     (if b = 0 then Inl ZeroDivisionError else round_double (of_int a / of_int b))"

text \<open>\<open>n * x\<close> with an integer \<open>n\<close> and a float \<open>x\<close>: the integer is converted first.\<close>

definition int_times_float :: "int \<Rightarrow> rat \<Rightarrow> py_error + rat" where
  "int_times_float n x =
     (case round_double (of_int n) of
        Inl e \<Rightarrow> Inl e
      | Inr f \<Rightarrow> round_double (f * x))"

text \<open>\<open>int(x)\<close> truncates towards zero.\<close>

definition py_int :: "rat \<Rightarrow> int" where
  "py_int x = (if 0 \<le> x then \<lfloor>x\<rfloor> else \<lceil>x\<rceil>)"

subsection \<open>Scaling and placement in \<open>process_image\<close> (lines 103 to 110)\<close>

text \<open>Lines 103 to 106, for a trimmed design of size \<open>(design_w, design_h)\<close>: the scale
  and the size \<open>(final_w, final_h)\<close> handed to \<open>resize\<close>.\<close>

definition fit_size :: "int \<Rightarrow> int \<Rightarrow> coords \<Rightarrow> py_error + (rat \<times> int \<times> int)" where
  "fit_size design_w design_h mockup_config =
     (case true_div (cw mockup_config) design_w of
        Inl e \<Rightarrow> Inl e
      | Inr sx \<Rightarrow>
     (case true_div (ch mockup_config) design_h of
        Inl e \<Rightarrow> Inl e
      | Inr sy \<Rightarrow>
     (let scale = min sx sy in
      case int_times_float design_w scale of
        Inl e \<Rightarrow> Inl e
      | Inr pw \<Rightarrow>
     (case int_times_float design_h scale of
        Inl e \<Rightarrow> Inl e
      | Inr ph \<Rightarrow> Inr (scale, py_int pw, py_int ph)))))"

text \<open>Lines 109 and 110; \<open>//\<close> on integers is \<open>div\<close>.\<close>

definition paste_position :: "coords \<Rightarrow> int \<Rightarrow> point" where
  "paste_position mockup_config final_w =
     (cx mockup_config + (cw mockup_config - final_w) div 2, cy mockup_config + 20)"

subsection \<open>Configuration and the outside world\<close>

record mockup_set_config =
  white :: "url option"
  black :: "url option"
  mcoords :: "coords option"
  watermark_text :: "string option"
  title_prefix_to_add :: string
  title_suffix_to_add :: string

text \<open>\<open>domains\<close> is the dictionary of the configuration in its order; its keys are
  distinct.\<close>

record config =
  max_urls_per_domain :: int
  history_to_keep :: int
  title_clean_keywords :: "string list"
  domains :: "(domain \<times> rule list) list"
  mockup_sets :: "mockup_name \<rightharpoonup> mockup_set_config"

text \<open>
  What the script obtains from outside itself: the size of the repository at the
  \<open>k\<close>-th call of \<open>get_repo_size\<close>, in bytes; the stripped non-empty lines of a domain's
  URL file (\<open>None\<close> when the request raises); the decoded image behind a URL (\<open>None\<close>
  when the request or the decoding fails); the pixel contents computed by the library's
  resampling filter, masked paste and text drawing; the output file name of lines 335 to
  339; the JPEG encoder; the clock.
\<close>

record world =
  repo_bytes :: "nat \<Rightarrow> nat"
  url_list :: "domain \<Rightarrow> url list option"
  http_image :: "url \<Rightarrow> image option"
  lanczos :: "image \<Rightarrow> int \<times> int \<Rightarrow> point \<Rightarrow> pixel"
  paste_mask :: "image \<Rightarrow> image \<Rightarrow> point \<Rightarrow> point \<Rightarrow> pixel"
  draw_text :: "image \<Rightarrow> string \<Rightarrow> point \<Rightarrow> pixel"
  final_filename :: "string \<Rightarrow> string list \<Rightarrow> string \<Rightarrow> string \<Rightarrow> string"
  jpeg_encode :: "image \<Rightarrow> string"
  timestamp :: "nat \<Rightarrow> string"

definition MAX_REPO_SIZE_MB :: rat where
  "MAX_REPO_SIZE_MB = 900"

text \<open>\<open>get_repo_size\<close> (lines 149 to 157) at its \<open>k\<close>-th call.  The division by \<open>2^20\<close>
  is exact in a float, so the comparison of line 235 is the one on the rationals.\<close>

definition get_repo_size :: "world \<Rightarrow> nat \<Rightarrow> rat" where
  "get_repo_size w k = of_nat (repo_bytes w k) / (1024 * 1024)"

subsection \<open>More of the imaging library\<close>

text \<open>\<open>convert("RGBA")\<close>: an image without alpha becomes opaque.\<close>

definition convert_rgba :: "image \<Rightarrow> image" where
  "convert_rgba im =
     (case mode im of
        RGBA \<Rightarrow> im
      | RGB \<Rightarrow> im\<lparr>mode := RGBA, pix := (\<lambda>p. case pix im p of (r, g, b, a) \<Rightarrow> (r, g, b, 255))\<rparr>)"

text \<open>\<open>download_image\<close> (lines 46 to 58): every exception ends in \<open>None\<close>, also the one
  of a missing URL.\<close>

definition download_image :: "world \<Rightarrow> url option \<Rightarrow> image option" where
  "download_image w u =
     (case u of
        None \<Rightarrow> None
      | Some a \<Rightarrow> map_option convert_rgba (http_image w a))"

text \<open>\<open>Image.getpixel\<close>: a negative coordinate counts from the far edge; outside the image
  it raises \<open>IndexError\<close>.\<close>

definition getpixel :: "image \<Rightarrow> point \<Rightarrow> py_error + pixel" where
  "getpixel im p =
     (let x = (if fst p < 0 then width im + fst p else fst p);
          y = (if snd p < 0 then height im + snd p else snd p)
      in if inside (width im) (height im) (x, y) then Inr (pix im (x, y))
         else Inl IndexError)"

text \<open>\<open>Image.resize\<close>: the same size gives a copy; a size below one pixel is a
  \<open>ValueError\<close>; otherwise the contents are those of the resampling filter.\<close>

definition resize :: "world \<Rightarrow> image \<Rightarrow> int \<times> int \<Rightarrow> py_error + image" where
  "resize w im new_size =
     (if new_size = (width im, height im) then Inr im
      else if fst new_size < 1 \<or> snd new_size < 1 then Inl ValueError
      else Inr \<lparr>mode = mode im, width = fst new_size, height = snd new_size,
                pix = lanczos w im new_size\<rparr>)"

text \<open>\<open>base.paste(src, pos, src)\<close> on a copy of \<open>base\<close>: mode and size of \<open>base\<close>.\<close>

definition paste :: "world \<Rightarrow> image \<Rightarrow> image \<Rightarrow> point \<Rightarrow> image" where
  "paste w base src pos = base\<lparr>pix := paste_mask w base src pos\<rparr>"

text \<open>The JPEG writer accepts no alpha channel: saving an RGBA image raises \<open>OSError\<close>
  (\<open>cannot write mode RGBA as JPEG\<close>).\<close>

definition save_jpeg :: "world \<Rightarrow> image \<Rightarrow> py_error + string" where
  "save_jpeg w im =
     (case mode im of
        RGBA \<Rightarrow> Inl OSError
      | RGB \<Rightarrow> Inr (jpeg_encode w im))"

subsection \<open>The watermark of \<open>process_image\<close> (lines 116 to 145)\<close>

definition apply_watermark :: "world \<Rightarrow> image \<Rightarrow> string option \<Rightarrow> py_error + image" where
  "apply_watermark w final_mockup watermark_content =
     (case watermark_content of
        None \<Rightarrow> Inr final_mockup
      | Some content \<Rightarrow>
          if content = [] then Inr final_mockup
          else if prefix ''http://'' content \<or> prefix ''https://'' content
          then (case download_image w (Some content) of
                  None \<Rightarrow> Inr final_mockup
                | Some watermark_img \<Rightarrow>
                   (case (if 280 < width watermark_img
                          then (case true_div (height watermark_img) (width watermark_img) of
                                  Inl e \<Rightarrow> Inl e
                                | Inr aspect_ratio \<Rightarrow>
                                   (case int_times_float 280 aspect_ratio of
                                      Inl e \<Rightarrow> Inl e
                                    | Inr new_h \<Rightarrow> resize w watermark_img (280, py_int new_h)))
                          else Inr watermark_img) of
                      Inl e \<Rightarrow> Inl e
                    | Inr wm \<Rightarrow>
                        Inr (paste w final_mockup wm
                               (width final_mockup - width wm - 20,
                                height final_mockup - height wm - 50))))
          else Inr (final_mockup\<lparr>pix := draw_text w final_mockup content\<rparr>))"

subsection \<open>\<open>process_image\<close> (lines 74 to 147)\<close>

text \<open>\<open>mockup_config\<close> is \<open>mockup_data.get("coords")\<close>; subscripting \<open>None\<close> is a
  \<open>TypeError\<close>.\<close>

definition process_image ::
  "world \<Rightarrow> image \<Rightarrow> image \<Rightarrow> coords option \<Rightarrow> string option \<Rightarrow> py_error + image option" where
  "process_image w design_img mockup_img mockup_config watermark_content =
     (case remove_background design_img of
        Inl e \<Rightarrow> Inl e
      | Inr cleared \<Rightarrow>
     (case trim_default cleared of
        Inl e \<Rightarrow> Inl e
      | Inr None \<Rightarrow> Inr None
      | Inr (Some trimmed_design) \<Rightarrow>
     (case mockup_config of
        None \<Rightarrow> Inl TypeError
      | Some c \<Rightarrow>
     (case fit_size (width trimmed_design) (height trimmed_design) c of
        Inl e \<Rightarrow> Inl e
      | Inr (scale, final_w, final_h) \<Rightarrow>
     (case resize w trimmed_design (final_w, final_h) of
        Inl e \<Rightarrow> Inl e
      | Inr resized_design \<Rightarrow>
     (case apply_watermark w
             (paste w mockup_img resized_design (paste_position c final_w))
             watermark_content of
        Inl e \<Rightarrow> Inl e
      | Inr final_mockup \<Rightarrow> Inr (Some final_mockup)))))))"

subsection \<open>The loop over the URLs of a domain (lines 271 to 354)\<close>

text \<open>An entry of \<open>mockup_cache\<close>.\<close>

record mockup_data =
  white_img :: "image option"
  black_img :: "image option"
  coords_of :: "coords option"
  watermark_of :: "string option"
  prefix_of :: string
  suffix_of :: string

text \<open>Dictionaries that are iterated keep their insertion order.\<close>

fun dict_set :: "'k \<Rightarrow> 'v \<Rightarrow> ('k \<times> 'v) list \<Rightarrow> ('k \<times> 'v) list" where
  "dict_set k v [] = [(k, v)]"
| "dict_set k v ((k', v') # rest) =
     (if k' = k then (k, v) # rest else (k', v') # dict_set k v rest)"

record loop_state =
  images_for_zip :: "(mockup_name \<times> (string \<times> string) list) list"
  mockup_cache :: "mockup_name \<rightharpoonup> mockup_data"
  processed_count :: nat
  skipped_count :: nat
  successfully_processed_this_run :: "url list"

text \<open>\<open>os.path.basename\<close>: what follows the last slash.\<close>

definition basename :: "string \<Rightarrow> string" where
  "basename p = rev (takeWhile (\<lambda>c. c \<noteq> CHR ''/'') (rev p))"

text \<open>Lines 298 and 299: \<open>sum(pixel[:3]) / 3 > 128\<close>; the sum is an integer, so this is
  \<open>sum > 384\<close>.\<close>

fun is_white_pixel :: "pixel \<Rightarrow> bool" where
  "is_white_pixel (r, g, b, a) = (384 < r + g + b)"

text \<open>Lines 310 to 321: the cache entry of a mockup set, created on first use.\<close>

definition cache_lookup ::
  "world \<Rightarrow> config \<Rightarrow> mockup_name \<Rightarrow> (mockup_name \<rightharpoonup> mockup_data)
     \<Rightarrow> (mockup_name \<rightharpoonup> mockup_data)" where
  "cache_lookup w cfg mockup_name cache =
     (case cache mockup_name of
        Some d \<Rightarrow> cache
      | None \<Rightarrow>
         (case mockup_sets cfg mockup_name of
            None \<Rightarrow> cache
          | Some m_config \<Rightarrow>
              cache(mockup_name \<mapsto>
                \<lparr>white_img = download_image w (white m_config),
                 black_img = download_image w (black m_config),
                 coords_of = mcoords m_config,
                 watermark_of = watermark_text m_config,
                 prefix_of = title_prefix_to_add m_config,
                 suffix_of = title_suffix_to_add m_config\<rparr>)))"

text \<open>One round of the loop of line 308.  The result is the exception that left the
  round, if any, and the state as the round left it.\<close>

definition mockup_step ::
  "world \<Rightarrow> config \<Rightarrow> image \<Rightarrow> bool \<Rightarrow> string \<Rightarrow> mockup_name \<Rightarrow> loop_state
     \<Rightarrow> py_error option \<times> loop_state" where
  "mockup_step w cfg cropped_img is_white filename mockup_name st =
     (let st1 = st\<lparr>mockup_cache := cache_lookup w cfg mockup_name (mockup_cache st)\<rparr>
      in case mockup_cache st1 mockup_name of
           None \<Rightarrow> (None, st1)
         | Some mockup_data \<Rightarrow>
            (case (if is_white then white_img mockup_data else black_img mockup_data) of
               None \<Rightarrow> (None, st1)
             | Some mockup_to_use \<Rightarrow>
                (case process_image w cropped_img mockup_to_use (coords_of mockup_data)
                        (watermark_of mockup_data) of
                   Inl e \<Rightarrow> (Some e, st1)
                 | Inr None \<Rightarrow> (None, st1)
                 | Inr (Some final_mockup) \<Rightarrow>
                    (case save_jpeg w final_mockup of
                       Inl e \<Rightarrow> (Some e, st1)
                     | Inr data \<Rightarrow>
                        (None, st1\<lparr>images_for_zip :=
                           dict_set mockup_name
                             ((case map_of (images_for_zip st1) mockup_name of
                                 None \<Rightarrow> [] | Some l \<Rightarrow> l)
                              @ [(final_filename w filename (title_clean_keywords cfg)
                                    (prefix_of mockup_data) (suffix_of mockup_data), data)])
                             (images_for_zip st1)\<rparr>)))))"

fun mockup_loop ::
  "world \<Rightarrow> config \<Rightarrow> image \<Rightarrow> bool \<Rightarrow> string \<Rightarrow> mockup_name list \<Rightarrow> loop_state
     \<Rightarrow> py_error option \<times> loop_state" where
  "mockup_loop w cfg cropped_img is_white filename [] st = (None, st)"
| "mockup_loop w cfg cropped_img is_white filename (mockup_name # rest) st =
     (case mockup_step w cfg cropped_img is_white filename mockup_name st of
        (Some e, st') \<Rightarrow> (Some e, st')
      | (None, st') \<Rightarrow> mockup_loop w cfg cropped_img is_white filename rest st')"

text \<open>The outcome of the \<open>try\<close> block of lines 285 to 350.\<close>

datatype outcome = Skipped | Processed | Raised py_error

definition try_block ::
  "world \<Rightarrow> config \<Rightarrow> rule \<Rightarrow> url \<Rightarrow> string \<Rightarrow> loop_state \<Rightarrow> outcome \<times> loop_state" where
  "try_block w cfg matched_rule u filename st =
     (case download_image w (Some u) of
        None \<Rightarrow> (Skipped, st)
      | Some img \<Rightarrow>
     (case rcoords matched_rule of
        None \<Rightarrow> (Skipped, st)
      | Some crop_coords \<Rightarrow>
     (case getpixel img (cx crop_coords, cy crop_coords) of
        Inl e \<Rightarrow> (Raised e, st)
      | Inr pixel \<Rightarrow>
     (let is_white = is_white_pixel pixel in
      if (skipWhite matched_rule \<and> is_white) \<or> (skipBlack matched_rule \<and> \<not> is_white)
      then (Skipped, st)
      else
     (case crop img (cx crop_coords, cy crop_coords,
                     cx crop_coords + cw crop_coords, cy crop_coords + ch crop_coords) of
        Inl e \<Rightarrow> (Raised e, st)
      | Inr cropped_img \<Rightarrow>
     (case mockup_loop w cfg cropped_img is_white filename
             (mockup_sets_to_use matched_rule) st of
        (Some e, st') \<Rightarrow> (Raised e, st')
      | (None, st') \<Rightarrow> (Processed, st')))))))"

text \<open>One round of the loop of line 277, with the handler of lines 352 to 354.\<close>

definition process_url ::
  "world \<Rightarrow> config \<Rightarrow> rule list \<Rightarrow> url \<Rightarrow> loop_state \<Rightarrow> loop_state" where
  "process_url w cfg domain_rules u st =
     (let filename = basename u in
      case match_rule domain_rules filename of
        None \<Rightarrow> st\<lparr>skipped_count := skipped_count st + 1\<rparr>
      | Some matched_rule \<Rightarrow>
          if action matched_rule = Some ''skip''
          then st\<lparr>skipped_count := skipped_count st + 1\<rparr>
          else (case try_block w cfg matched_rule u filename st of
                  (Skipped, st') \<Rightarrow> st'\<lparr>skipped_count := skipped_count st' + 1\<rparr>
                | (Raised e, st') \<Rightarrow> st'\<lparr>skipped_count := skipped_count st' + 1\<rparr>
                | (Processed, st') \<Rightarrow>
                    st'\<lparr>successfully_processed_this_run :=
                          successfully_processed_this_run st' @ [u],
                        processed_count := processed_count st' + 1\<rparr>))"

fun url_loop ::
  "world \<Rightarrow> config \<Rightarrow> rule list \<Rightarrow> url list \<Rightarrow> loop_state \<Rightarrow> loop_state" where
  "url_loop w cfg domain_rules [] st = st"
| "url_loop w cfg domain_rules (u # us) st =
     url_loop w cfg domain_rules us (process_url w cfg domain_rules u st)"

subsection \<open>\<open>main\<close> (lines 198 to 378)\<close>

record summary =
  processed :: nat
  skipped :: nat
  total_to_process :: nat

record main_state =
  processed_log :: "domain \<rightharpoonup> url list"
  images :: "(mockup_name \<times> (string \<times> string) list) list"
  urls_summary :: "(domain \<times> summary) list"

text \<open>The body of the loop of line 231 after the size check: lines 239 to 362.\<close>

definition process_domain ::
  "world \<Rightarrow> config \<Rightarrow> domain \<Rightarrow> rule list \<Rightarrow> main_state \<Rightarrow> main_state" where
  "process_domain w cfg d domain_rules st =
     (case url_list w d of
        None \<Rightarrow> st
      | Some all_urls \<Rightarrow>
         (let urls_to_process =
                compute_window (max_urls_per_domain cfg) (log_get (processed_log st) d) all_urls
          in if urls_to_process = [] then st
             else (let ls = url_loop w cfg (sort_rules domain_rules) urls_to_process
                              \<lparr>images_for_zip = images st, mockup_cache = Map.empty,
                               processed_count = 0, skipped_count = 0,
                               successfully_processed_this_run = []\<rparr>
                   in \<lparr>processed_log =
                         update_history (history_to_keep cfg) d
                           (successfully_processed_this_run ls) (processed_log st),
                       images = images_for_zip ls,
                       urls_summary =
                         dict_set d \<lparr>processed = processed_count ls,
                                     skipped = skipped_count ls,
                                     total_to_process = length urls_to_process\<rparr>
                           (urls_summary st)\<rparr>)))"

text \<open>The loop of line 231; \<open>k\<close> counts the calls of \<open>get_repo_size\<close>.  Line 237 leaves
  the loop.\<close>

fun domain_loop ::
  "world \<Rightarrow> config \<Rightarrow> nat \<Rightarrow> (domain \<times> rule list) list \<Rightarrow> main_state \<Rightarrow> main_state" where
  "domain_loop w cfg k [] st = st"
| "domain_loop w cfg k ((d, domain_rules) # rest) st =
     (if MAX_REPO_SIZE_MB \<le> get_repo_size w k then st
      else domain_loop w cfg (Suc k) rest (process_domain w cfg d domain_rules st))"

text \<open>Lines 365 to 373: one archive per mockup set with images.\<close>

fun show_nat :: "nat \<Rightarrow> string" where
  "show_nat n =
     (if n < 10 then [char_of (48 + n)]
      else show_nat (n div 10) @ [char_of (48 + n mod 10)])"

declare show_nat.simps [simp del]

record archive =
  zip_filename :: string
  entries :: "(string \<times> string) list"

definition make_archive :: "world \<Rightarrow> nat \<Rightarrow> mockup_name \<Rightarrow> (string \<times> string) list \<Rightarrow> archive" where
  "make_archive w k mockup_name image_list =
     \<lparr>zip_filename = mockup_name @ ''.'' @ timestamp w k @ ''_''
                       @ show_nat (length image_list) @ ''_images.zip'',
      entries = image_list\<rparr>"

definition make_archives ::
  "world \<Rightarrow> (mockup_name \<times> (string \<times> string) list) list \<Rightarrow> archive list" where
  "make_archives w imgs =
     map (\<lambda>(k, (mockup_name, image_list)). make_archive w k mockup_name image_list)
         (enumerate 0 (filter (\<lambda>(mockup_name, image_list). image_list \<noteq> []) imgs))"

record main_result =
  archives :: "archive list"
  saved_log :: "domain \<rightharpoonup> url list"
  generate_log :: "(domain \<times> summary) list"

text \<open>\<open>main\<close> with a configuration: the domains are run from the loaded history, then
  the archives, the history and the summary are written.\<close>

definition run :: "world \<Rightarrow> config \<Rightarrow> (domain \<rightharpoonup> url list) \<Rightarrow> main_result" where
  "run w cfg loaded_log =
     (let st = domain_loop w cfg 0 (domains cfg)
                 \<lparr>processed_log = loaded_log, images = [], urls_summary = []\<rparr>
      in \<lparr>archives = make_archives w (images st),
          saved_log = processed_log st,
          generate_log = urls_summary st\<rparr>)"

text \<open>Without a configuration \<open>main\<close> returns at line 211.\<close>

definition main ::
  "world \<Rightarrow> config option \<Rightarrow> (domain \<rightharpoonup> url list) \<Rightarrow> main_result option" where
  "main w configs loaded_log = map_option (\<lambda>cfg. run w cfg loaded_log) configs"

subsection \<open>Invariants used in the proofs\<close>

text \<open>The counters and the list of processed URLs are the same in both states.\<close>

definition same_counters :: "loop_state \<Rightarrow> loop_state \<Rightarrow> bool" where
  "same_counters st st' =
     (processed_count st' = processed_count st \<and> skipped_count st' = skipped_count st
      \<and> successfully_processed_this_run st' = successfully_processed_this_run st)"

text \<open>A summary whose counters add up.\<close>

definition balanced :: "summary \<Rightarrow> bool" where
  "balanced s = (processed s + skipped s = total_to_process s)"

text \<open>Every image held by the mockup cache is RGBA.\<close>

definition cache_rgba :: "(mockup_name \<rightharpoonup> mockup_data) \<Rightarrow> bool" where
  "cache_rgba cache =
     (\<forall>n d im. cache n = Some d \<longrightarrow> (white_img d = Some im \<or> black_img d = Some im)
         \<longrightarrow> mode im = RGBA)"

subsection \<open>The round of one domain, in parts\<close>

text \<open>The state in which the URL loop of a domain starts (lines 271 to 274).\<close>

definition start_state :: "main_state \<Rightarrow> loop_state" where
  "start_state st =
     \<lparr>images_for_zip = images st, mockup_cache = Map.empty,
      processed_count = 0, skipped_count = 0, successfully_processed_this_run = []\<rparr>"

text \<open>A round of the URL loop completes when a rule that is not a skip rule matches and
  the guarded block runs to line 350.\<close>

definition url_completes :: "world \<Rightarrow> config \<Rightarrow> rule list \<Rightarrow> url \<Rightarrow> loop_state \<Rightarrow> bool" where
  "url_completes w cfg domain_rules u st =
     (case match_rule domain_rules (basename u) of
        None \<Rightarrow> False
      | Some matched_rule \<Rightarrow>
          action matched_rule \<noteq> Some ''skip''
          \<and> fst (try_block w cfg matched_rule u (basename u) st) = Processed)"

text \<open>The URLs of a window whose rounds complete, in the order of the window; each round
  starts in the state the rounds before it have left.\<close>

fun completed :: "world \<Rightarrow> config \<Rightarrow> rule list \<Rightarrow> url list \<Rightarrow> loop_state \<Rightarrow> url list" where
  "completed w cfg domain_rules [] st = []"
| "completed w cfg domain_rules (u # us) st =
     (if url_completes w cfg domain_rules u st then [u] else [])
     @ completed w cfg domain_rules us (process_url w cfg domain_rules u st)"

text \<open>The state of \<open>main\<close> when the domain loop has run the domains \<open>pre\<close> from the
  loaded history.\<close>

definition state_after :: "world \<Rightarrow> config \<Rightarrow> (domain \<times> rule list) list
    \<Rightarrow> (domain \<rightharpoonup> url list) \<Rightarrow> main_state" where
  "state_after w cfg pre loaded_log =
     domain_loop w cfg 0 pre \<lparr>processed_log = loaded_log, images = [], urls_summary = []\<rparr>"

subsection \<open>Example inputs\<close>

definition square_image :: image where
  "square_image = \<lparr>mode = RGBA, width = 200, height = 200,
      pix = (\<lambda>(x, y). if 50 \<le> x \<and> x < 60 \<and> 50 \<le> y \<and> y < 60 then (255, 0, 0, 255) else clear)\<rparr>"

definition blank_image :: image where
  "blank_image = \<lparr>mode = RGBA, width = 4, height = 3, pix = (\<lambda>p. clear)\<rparr>"

definition island :: image where
  "island = \<lparr>mode = RGBA, width = 3, height = 1,
      pix = (\<lambda>p. if p = (1, 0) then (0, 0, 0, 255) else (250, 250, 250, 255))\<rparr>"

text \<open>A run over one domain with two design URLs, a rule with crop coordinates and the
  mockup set A.  The design is a white pixel beside a black one; the library's pixel
  computations are trivial ones.\<close>

definition design_image :: image where
  "design_image = \<lparr>mode = RGB, width = 2, height = 1,
      pix = (\<lambda>p. if p = (0, 0) then (255, 255, 255, 255) else (0, 0, 0, 255))\<rparr>"

definition mockup_image :: image where
  "mockup_image = \<lparr>mode = RGB, width = 4, height = 4, pix = (\<lambda>p. (200, 200, 200, 255))\<rparr>"

definition shop_world :: world where
  "shop_world =
     \<lparr>repo_bytes = (\<lambda>k. 1024),
      url_list = (\<lambda>d. if d = ''shop''
                       then Some [''https://cdn/design-1.png'', ''https://cdn/design-2.png'']
                       else None),
      http_image = (\<lambda>u. if u = ''https://cdn/white.png'' \<or> u = ''https://cdn/black.png''
                         then Some mockup_image
                         else if u = ''https://cdn/design-1.png'' \<or> u = ''https://cdn/design-2.png''
                         then Some design_image else None),
      lanczos = (\<lambda>im new_size p. clear),
      paste_mask = (\<lambda>base src pos p. pix base p),
      draw_text = (\<lambda>im t p. pix im p),
      final_filename = (\<lambda>filename keywords pre suf. filename),
      jpeg_encode = (\<lambda>im. ''jpeg''),
      timestamp = (\<lambda>k. ''20260101_000000'')\<rparr>"

definition shop_rule :: rule where
  "shop_rule =
     \<lparr>pattern = ''design'', action = None,
      rcoords = Some \<lparr>cx = 0, cy = 0, cw = 2, ch = 1\<rparr>,
      skipWhite = False, skipBlack = False, mockup_sets_to_use = [''A'']\<rparr>"

definition shop_config :: config where
  "shop_config =
     \<lparr>max_urls_per_domain = 2, history_to_keep = 10, title_clean_keywords = [],
      domains = [(''shop'', [shop_rule])],
      mockup_sets =
        [''A'' \<mapsto> \<lparr>white = Some ''https://cdn/white.png'',
                   black = Some ''https://cdn/black.png'',
                   mcoords = Some \<lparr>cx = 1, cy = 0, cw = 2, ch = 1\<rparr>,
                   watermark_text = None,
                   title_prefix_to_add = '''', title_suffix_to_add = ''''\<rparr>]\<rparr>"

text \<open>The images and the cache entry that occur in this run.\<close>

definition shop_cropped :: image where
  "shop_cropped = \<lparr>mode = RGBA, width = 2, height = 1,
                    pix = crop_pixels (convert_rgba design_image) 0 0\<rparr>"

definition shop_cleared :: image where
  "shop_cleared = shop_cropped\<lparr>pix := (pix shop_cropped)((0, 0) := clear)\<rparr>"

definition shop_trimmed :: image where
  "shop_trimmed = \<lparr>mode = RGBA, width = 2, height = 1, pix = crop_pixels shop_cleared 0 0\<rparr>"

definition shop_composite :: image where
  "shop_composite =
     paste shop_world (convert_rgba mockup_image) shop_trimmed
       (paste_position \<lparr>cx = 1, cy = 0, cw = 2, ch = 1\<rparr> 2)"

definition shop_entry :: mockup_data where
  "shop_entry =
     \<lparr>white_img = Some (convert_rgba mockup_image), black_img = Some (convert_rgba mockup_image),
      coords_of = Some \<lparr>cx = 1, cy = 0, cw = 2, ch = 1\<rparr>, watermark_of = None,
      prefix_of = [], suffix_of = []\<rparr>"

text \<open>The same world with a repository of exactly 900 MB.\<close>

definition full_world :: world where
  "full_world = shop_world\<lparr>repo_bytes := (\<lambda>k. 900 * 1024 * 1024)\<rparr>"

text \<open>A run over two domains.  The rule \<open>plain\<close> names no mockup set, so its URLs complete
  without an image; the rule \<open>design\<close> composes into the mockup set A.  The retention
  length is a parameter.\<close>

definition plain_rule :: rule where
  "plain_rule =
     \<lparr>pattern = ''plain'', action = None,
      rcoords = Some \<lparr>cx = 0, cy = 0, cw = 2, ch = 1\<rparr>,
      skipWhite = False, skipBlack = False, mockup_sets_to_use = []\<rparr>"

definition mixed_world :: world where
  "mixed_world =
     \<lparr>repo_bytes = (\<lambda>k. 1024),
      url_list = (\<lambda>d. if d = ''shop''
                       then Some [''https://cdn/design-1.png'', ''https://cdn/plain-2.png'']
                       else if d = ''store''
                       then Some [''https://cdn/plain-3.png'', ''https://cdn/plain-4.png'']
                       else None),
      http_image = (\<lambda>u. if u = ''https://cdn/white.png'' \<or> u = ''https://cdn/black.png''
                         then Some mockup_image
                         else if u = ''https://cdn/design-1.png'' \<or> u = ''https://cdn/plain-2.png''
                                 \<or> u = ''https://cdn/plain-3.png'' \<or> u = ''https://cdn/plain-4.png''
                         then Some design_image else None),
      lanczos = (\<lambda>im new_size p. clear),
      paste_mask = (\<lambda>base src pos p. pix base p),
      draw_text = (\<lambda>im t p. pix im p),
      final_filename = (\<lambda>filename keywords pre suf. filename),
      jpeg_encode = (\<lambda>im. ''jpeg''),
      timestamp = (\<lambda>k. ''20260101_000000'')\<rparr>"

definition mixed_config :: "int \<Rightarrow> config" where
  "mixed_config k =
     \<lparr>max_urls_per_domain = 2, history_to_keep = k, title_clean_keywords = [],
      domains = [(''shop'', [plain_rule, shop_rule]), (''store'', [plain_rule])],
      mockup_sets =
        [''A'' \<mapsto> \<lparr>white = Some ''https://cdn/white.png'',
                   black = Some ''https://cdn/black.png'',
                   mcoords = Some \<lparr>cx = 1, cy = 0, cw = 2, ch = 1\<rparr>,
                   watermark_text = None,
                   title_prefix_to_add = [], title_suffix_to_add = []\<rparr>]\<rparr>"

text \<open>The history loaded in that run: the second domain has two URLs from before.\<close>

definition mixed_log :: "domain \<rightharpoonup> url list" where
  "mixed_log = [''store'' \<mapsto> [''https://cdn/old-1.png'', ''https://cdn/old-2.png'']]"

text \<open>A history of eleven entries, one more than the retention length of the first
  example.\<close>

definition long_log :: "domain \<rightharpoonup> url list" where
  "long_log = [''shop'' \<mapsto> replicate 11 ''https://cdn/old.png'']"

text \<open>A design of 100 by 50 pixels: a white pixel in the corner, black elsewhere.\<close>

definition poster_image :: image where
  "poster_image = \<lparr>mode = RGBA, width = 100, height = 50,
      pix = (\<lambda>p. if p = (0, 0) then (255, 255, 255, 255) else (0, 0, 0, 255))\<rparr>"

text \<open>Its background removed, trimmed, and resized to 200 by 100.\<close>

definition poster_cleared :: image where
  "poster_cleared = poster_image\<lparr>pix := (pix poster_image)((0, 0) := clear)\<rparr>"

definition poster_trimmed :: image where
  "poster_trimmed = \<lparr>mode = RGBA, width = 100, height = 50, pix = crop_pixels poster_cleared 0 0\<rparr>"

text \<open>A world in which the resampling filter takes the nearest pixel of the source and the
  paste copies the pixels of the source that are not fully transparent.\<close>

definition poster_world :: world where
  "poster_world =
     shop_world\<lparr>
       lanczos := (\<lambda>im new_size (x, y).
                    pix im (x * width im div fst new_size, y * height im div snd new_size)),
       paste_mask := (\<lambda>base src pos (x, y).
                    if inside (width src) (height src) (x - fst pos, y - snd pos)
                       \<and> alpha (pix src (x - fst pos, y - snd pos)) \<noteq> 0
                    then pix src (x - fst pos, y - snd pos) else pix base (x, y))\<rparr>"

definition poster_resized :: image where
  "poster_resized = \<lparr>mode = RGBA, width = 200, height = 100,
                      pix = lanczos poster_world poster_trimmed (200, 100)\<rparr>"

text \<open>A mockup of 300 by 300 grey pixels and a rectangle of 200 by 200 in it.\<close>

definition canvas_image :: image where
  "canvas_image = \<lparr>mode = RGBA, width = 300, height = 300, pix = (\<lambda>p. (200, 200, 200, 255))\<rparr>"

definition poster_rect :: coords where
  "poster_rect = \<lparr>cx = 30, cy = 40, cw = 200, ch = 200\<rparr>"

section \<open>Properties\<close>

subsection \<open>The processing window\<close>

lemma window_loop_eq:
  "window_loop m stop i us acc =
     acc @ take (nat (m - int i)) (takeWhile (\<lambda>u. u \<notin> stop) us)"
proof (induction us arbitrary: i acc)
  case Nil
  show ?case by simp
next
  case (Cons u us)
  show ?case
  proof (cases "u \<in> stop \<or> m \<le> int i")
    case True
    then show ?thesis by auto
  next
    case False
    then have "nat (m - int i) = Suc (nat (m - int (Suc i)))" by auto
    with False Cons.IH [of "Suc i" "acc @ [u]"] show ?thesis by simp
  qed
qed

lemma compute_window_eq:
  "compute_window m hist urls = take (nat m) (takeWhile (\<lambda>u. u \<notin> set hist) urls)"
  by (simp add: compute_window_def window_loop_eq)

lemma prefix_no_hit_takeWhile:
  "prefix p urls \<Longrightarrow> set p \<inter> S = {} \<Longrightarrow> prefix p (takeWhile (\<lambda>u. u \<notin> S) urls)"
proof (induction p arbitrary: urls)
  case Nil
  show ?case by simp
next
  case (Cons a p)
  then obtain rest where urls: "urls = a # rest" and "prefix p rest"
    by (cases urls) auto
  with Cons show ?case by auto
qed

text \<open>
  Claim C3.  For a non-negative cap the window is a prefix of the fetched list, holds no
  URL of the stored history, has at most \<open>max_urls_per_domain\<close> elements, and every
  other prefix with these two properties is a prefix of it (so it is the longest one).
  For the fetched list u1..u5 and the history u3, u9 the window is u1, u2 under any cap
  of at least two.
\<close>

theorem compute_window_longest_prefix:
  assumes "0 \<le> m"
  shows "prefix (compute_window m hist urls) urls
       \<and> set (compute_window m hist urls) \<inter> set hist = {}
       \<and> int (length (compute_window m hist urls)) \<le> m
       \<and> (\<forall>p. prefix p urls \<and> set p \<inter> set hist = {} \<and> int (length p) \<le> m
              \<longrightarrow> prefix p (compute_window m hist urls))
       \<and> (2 \<le> m \<longrightarrow> compute_window m [''u3'', ''u9''] [''u1'', ''u2'', ''u3'', ''u4'', ''u5'']
                      = [''u1'', ''u2''])"
proof (intro conjI allI impI)
  let ?tw = "takeWhile (\<lambda>u. u \<notin> set hist) urls"
  show "prefix (compute_window m hist urls) urls"
    unfolding compute_window_eq
    by (meson prefix_order.order_trans take_is_prefix takeWhile_is_prefix)
  have "set (take (nat m) ?tw) \<subseteq> set ?tw" by (rule set_take_subset)
  moreover have "\<forall>u \<in> set ?tw. u \<notin> set hist" by (auto dest: set_takeWhileD)
  ultimately show "set (compute_window m hist urls) \<inter> set hist = {}"
    unfolding compute_window_eq by blast
  show "int (length (compute_window m hist urls)) \<le> m"
    using assms unfolding compute_window_eq by simp
next
  fix p
  assume p: "prefix p urls \<and> set p \<inter> set hist = {} \<and> int (length p) \<le> m"
  then have "prefix p (takeWhile (\<lambda>u. u \<notin> set hist) urls)"
    by (simp add: prefix_no_hit_takeWhile)
  then obtain zs where zs: "takeWhile (\<lambda>u. u \<notin> set hist) urls = p @ zs"
    by (auto simp: prefix_def)
  from p have "length p \<le> nat m" by linarith
  then show "prefix p (compute_window m hist urls)"
    unfolding compute_window_eq zs by simp
next
  assume "2 \<le> m"
  then have "nat m = Suc (Suc (nat (m - 2)))" by simp
  then show "compute_window m [''u3'', ''u9''] [''u1'', ''u2'', ''u3'', ''u4'', ''u5'']
               = [''u1'', ''u2'']"
    unfolding compute_window_eq by simp
qed

theorem compute_window_longest_prefix_witness:
  "(0::int) \<le> 2
   \<and> compute_window 2 [''u3'', ''u9''] [''u1'', ''u2'', ''u3'', ''u4'', ''u5''] = [''u1'', ''u2'']
   \<and> prefix [''u1'', ''u2''] [''u1'', ''u2'', ''u3'', ''u4'', ''u5'']"
  using compute_window_longest_prefix [of 2 "[''u3'', ''u9'']" "[''u1'', ''u2'', ''u3'', ''u4'', ''u5'']"]
  by simp

subsection \<open>The history update\<close>

lemma slice_to_nonneg: "0 \<le> k \<Longrightarrow> slice_to k xs = take (nat k) xs"
  by (simp add: slice_to_def)

lemma update_history_same:
  "succ \<noteq> [] \<Longrightarrow>
   log_get (update_history k d succ lg) d = slice_to k (succ @ log_get lg d)"
  by (simp add: update_history_def log_get_def)

lemma update_history_other:
  "d' \<noteq> d \<Longrightarrow> update_history k d succ lg d' = lg d'"
  by (simp add: update_history_def)

subsection \<open>Rule matching\<close>

lemma find_filter: "find P (filter Q xs) = find (\<lambda>x. Q x \<and> P x) xs"
  by (induction xs) auto

lemma sorted_sort_rules:
  "sorted (map (\<lambda>r. - int (length (pattern r))) (sort_rules rs))"
  by (simp add: sort_rules_def)

lemma descending_sort_rules:
  "sorted_wrt (\<lambda>a b. length (pattern b) \<le> length (pattern a)) (sort_rules rs)"
  using sorted_sort_rules [of rs] by (simp add: sorted_map)

lemma set_sort_rules: "set (sort_rules rs) = set rs"
  by (simp add: sort_rules_def)

lemma stable_sort_rules:
  "filter (\<lambda>r. length (pattern r) = n) (sort_rules rs) = filter (\<lambda>r. length (pattern r) = n) rs"
  using sort_key_stable [of "\<lambda>r. - int (length (pattern r))" "- int n" rs]
  by (simp add: sort_rules_def)

lemma match_rule_None: "match_rule rs fn = None \<longleftrightarrow> (\<forall>r \<in> set rs. \<not> sublist (pattern r) fn)"
  by (auto simp: match_rule_def find_None_iff)

lemma match_rule_first:
  "match_rule rs fn = Some r \<longleftrightarrow>
     (\<exists>pre post. rs = pre @ r # post \<and> sublist (pattern r) fn
        \<and> (\<forall>r' \<in> set pre. \<not> sublist (pattern r') fn))"
proof -
  have "match_rule rs fn = Some r \<longleftrightarrow>
     (\<exists>i<length rs. sublist (pattern (rs ! i)) fn \<and> r = rs ! i
         \<and> (\<forall>j<i. \<not> sublist (pattern (rs ! j)) fn))"
    by (simp add: match_rule_def find_Some_iff)
  also have "\<dots> \<longleftrightarrow> (\<exists>pre post. rs = pre @ r # post \<and> sublist (pattern r) fn
        \<and> (\<forall>r' \<in> set pre. \<not> sublist (pattern r') fn))" (is "?L \<longleftrightarrow> ?R")
  proof
    assume ?L
    then obtain i where i: "i < length rs" "sublist (pattern (rs ! i)) fn" "r = rs ! i"
      "\<forall>j<i. \<not> sublist (pattern (rs ! j)) fn" by blast
    have "rs = take i rs @ r # drop (Suc i) rs" using i by (simp add: id_take_nth_drop)
    moreover have "\<forall>r' \<in> set (take i rs). \<not> sublist (pattern r') fn"
      using i by (auto simp: in_set_conv_nth)
    ultimately show ?R using i by blast
  next
    assume ?R
    then obtain pre post where r: "rs = pre @ r # post" "sublist (pattern r) fn"
      "\<forall>r' \<in> set pre. \<not> sublist (pattern r') fn" by blast
    have "length pre < length rs" using r by simp
    moreover have "rs ! length pre = r" using r by simp
    moreover have "\<forall>j<length pre. \<not> sublist (pattern (rs ! j)) fn"
      using r by (simp add: nth_append)
    ultimately show ?L using r by blast
  qed
  finally show ?thesis .
qed

lemma match_rule_longest:
  assumes "match_rule (sort_rules rs) fn = Some r" "r' \<in> set rs" "sublist (pattern r') fn"
  shows "length (pattern r') \<le> length (pattern r)"
proof -
  from assms(1) obtain pre post where s: "sort_rules rs = pre @ r # post"
    and nm: "\<forall>q \<in> set pre. \<not> sublist (pattern q) fn"
    unfolding match_rule_first by blast
  have "r' \<in> set (sort_rules rs)" using assms(2) by (simp add: set_sort_rules)
  with s nm assms(3) have "r' = r \<or> r' \<in> set post" by auto
  moreover have "sorted (map (\<lambda>r. - int (length (pattern r))) (pre @ r # post))"
    using sorted_sort_rules [of rs] s by simp
  then have "\<forall>q \<in> set post. - int (length (pattern r)) \<le> - int (length (pattern q))"
    by (simp add: sorted_append)
  ultimately show ?thesis by auto
qed

lemma match_rule_tie:
  assumes "match_rule (sort_rules rs) fn = Some r"
  shows "find (\<lambda>q. length (pattern q) = length (pattern r) \<and> sublist (pattern q) fn) rs = Some r"
proof -
  let ?n = "length (pattern r)"
  let ?Q = "\<lambda>q. length (pattern q) = ?n"
  let ?P = "\<lambda>q. sublist (pattern q) fn"
  from assms obtain pre post where s: "sort_rules rs = pre @ r # post"
    and m: "?P r" and nm: "\<forall>q \<in> set pre. \<not> ?P q"
    unfolding match_rule_first by blast
  have "find (\<lambda>q. ?Q q \<and> ?P q) (pre @ r # post) = Some r"
    using m nm by (induction pre) auto
  then have "find ?P (filter ?Q (sort_rules rs)) = Some r"
    unfolding find_filter s .
  then have "find ?P (filter ?Q rs) = Some r"
    by (simp add: stable_sort_rules)
  then show ?thesis by (simp add: find_filter)
qed

lemma sort_two_front:
  assumes "pattern r1 = ''front''" "pattern r2 = ''front-view''"
  shows "sort_rules [r1, r2] = [r2, r1]" "sort_rules [r2, r1] = [r2, r1]"
  using assms by (simp_all add: sort_rules_def)

lemma front_view_example:
  assumes "pattern r1 = ''front''" "pattern r2 = ''front-view''"
  shows "match_rule (sort_rules [r1, r2]) ''image-front-view-01.jpg'' = Some r2"
    and "match_rule (sort_rules [r2, r1]) ''image-front-view-01.jpg'' = Some r2"
  using assms by (simp_all add: sort_two_front match_rule_def sublist_code prefix_code)

text \<open>
  Claim C5.  The sorted rule list is in descending pattern length and keeps the original
  order among patterns of equal length.  On it the matcher returns nothing exactly when
  no pattern is a substring of the filename, and otherwise the first rule of the sorted
  list whose pattern is a substring; that rule has a longest matching pattern and is the
  first such rule of the original list.  With the patterns front and front-view, in either
  order, the filename image-front-view-01.jpg selects the rule of front-view.
\<close>

theorem match_rule_after_sort:
  "sorted_wrt (\<lambda>a b. length (pattern b) \<le> length (pattern a)) (sort_rules rs)
   \<and> (\<forall>n. filter (\<lambda>r. length (pattern r) = n) (sort_rules rs)
           = filter (\<lambda>r. length (pattern r) = n) rs)
   \<and> (match_rule (sort_rules rs) fn = None \<longleftrightarrow> (\<forall>r \<in> set rs. \<not> sublist (pattern r) fn))
   \<and> (\<forall>r. match_rule (sort_rules rs) fn = Some r \<longleftrightarrow>
          (\<exists>pre post. sort_rules rs = pre @ r # post \<and> sublist (pattern r) fn
             \<and> (\<forall>r' \<in> set pre. \<not> sublist (pattern r') fn)))
   \<and> (\<forall>r. match_rule (sort_rules rs) fn = Some r \<longrightarrow>
          (\<forall>r' \<in> set rs. sublist (pattern r') fn \<longrightarrow> length (pattern r') \<le> length (pattern r))
          \<and> find (\<lambda>q. length (pattern q) = length (pattern r) \<and> sublist (pattern q) fn) rs
              = Some r)
   \<and> (\<forall>r1 r2. pattern r1 = ''front'' \<and> pattern r2 = ''front-view'' \<longrightarrow>
          match_rule (sort_rules [r1, r2]) ''image-front-view-01.jpg'' = Some r2
        \<and> match_rule (sort_rules [r2, r1]) ''image-front-view-01.jpg'' = Some r2)"
proof (intro conjI allI impI)
  show "sorted_wrt (\<lambda>a b. length (pattern b) \<le> length (pattern a)) (sort_rules rs)"
    by (rule descending_sort_rules)
  show "match_rule (sort_rules rs) fn = None \<longleftrightarrow> (\<forall>r \<in> set rs. \<not> sublist (pattern r) fn)"
    by (simp add: match_rule_None set_sort_rules)
next
  fix n
  show "filter (\<lambda>r. length (pattern r) = n) (sort_rules rs)
          = filter (\<lambda>r. length (pattern r) = n) rs"
    by (rule stable_sort_rules)
next
  fix r
  show "match_rule (sort_rules rs) fn = Some r \<longleftrightarrow>
          (\<exists>pre post. sort_rules rs = pre @ r # post \<and> sublist (pattern r) fn
             \<and> (\<forall>r' \<in> set pre. \<not> sublist (pattern r') fn))"
    by (rule match_rule_first)
next
  fix r
  assume m: "match_rule (sort_rules rs) fn = Some r"
  show "\<forall>r' \<in> set rs. sublist (pattern r') fn \<longrightarrow> length (pattern r') \<le> length (pattern r)"
    using match_rule_longest [OF m] by blast
  show "find (\<lambda>q. length (pattern q) = length (pattern r) \<and> sublist (pattern q) fn) rs = Some r"
    by (rule match_rule_tie [OF m])
next
  fix r1 r2 :: rule
  assume p: "pattern r1 = ''front'' \<and> pattern r2 = ''front-view''"
  show "match_rule (sort_rules [r1, r2]) ''image-front-view-01.jpg'' = Some r2"
    using p by (simp add: front_view_example(1))
  show "match_rule (sort_rules [r2, r1]) ''image-front-view-01.jpg'' = Some r2"
    using p by (simp add: front_view_example(2))
qed

theorem match_rule_after_sort_witness:
  "match_rule (sort_rules
      [\<lparr>pattern = ''front'', action = None, rcoords = None, skipWhite = False,
         skipBlack = False, mockup_sets_to_use = []\<rparr>,
       \<lparr>pattern = ''front-view'', action = None, rcoords = None, skipWhite = False,
         skipBlack = False, mockup_sets_to_use = [''A'']\<rparr>]) ''image-front-view-01.jpg''
   = Some \<lparr>pattern = ''front-view'', action = None, rcoords = None, skipWhite = False,
         skipBlack = False, mockup_sets_to_use = [''A'']\<rparr>"
  using match_rule_after_sort [of "[]" "[]"]
  by simp

subsection \<open>Trimming with padding\<close>

lemma in_bbox_RGBA: "in_bbox RGBA p = (alpha p \<noteq> 0)"
  by (cases p) simp

lemma set_bbox_cols: "mode im = RGBA \<Longrightarrow> set (bbox_cols im) = opaque_cols im"
  by (auto simp: bbox_cols_def opaque_cols_def opaque_at_def inside_def in_bbox_RGBA)

lemma set_bbox_rows: "mode im = RGBA \<Longrightarrow> set (bbox_rows im) = opaque_rows im"
  by (auto simp: bbox_rows_def opaque_rows_def opaque_at_def inside_def in_bbox_RGBA)

lemma sorted_bbox_cols: "sorted (bbox_cols im)"
  by (simp add: bbox_cols_def sorted_wrt_filter)

lemma sorted_bbox_rows: "sorted (bbox_rows im)"
  by (simp add: bbox_rows_def sorted_wrt_filter)

lemma opaque_cols_rows_empty: "opaque_cols im = {} \<longleftrightarrow> opaque_rows im = {}"
  by (auto simp: opaque_cols_def opaque_rows_def)

lemma opaque_cols_empty: "opaque_cols im = {} \<longleftrightarrow> (\<forall>p. \<not> opaque_at im p)"
  by (auto simp: opaque_cols_def)

lemma hd_sorted_Min: "sorted xs \<Longrightarrow> xs \<noteq> [] \<Longrightarrow> hd xs = Min (set (xs::int list))"
  by (cases xs) (auto intro!: Min_eqI [symmetric])

lemma last_sorted_Max: "sorted xs \<Longrightarrow> xs \<noteq> [] \<Longrightarrow> last xs = Max (set (xs::int list))"
proof (induction xs)
  case Nil
  then show ?case by simp
next
  case (Cons a xs)
  show ?case
  proof (cases "xs = []")
    case True
    then show ?thesis by simp
  next
    case False
    with Cons have "last xs = Max (set xs)" by simp
    moreover have "a \<le> Max (set xs)" using Cons.prems False
      by (metis List.finite_set Max_ge last_in_set calculation order_trans sorted_simps(2))
    ultimately show ?thesis using False by (simp add: max_def)
  qed
qed

lemma getbbox_None: "mode im = RGBA \<Longrightarrow> getbbox im = None \<longleftrightarrow> opaque_cols im = {}"
  using set_bbox_cols [of im] by (auto simp: getbbox_def)

lemma getbbox_Some:
  assumes "mode im = RGBA" "opaque_cols im \<noteq> {}"
  shows "getbbox im = Some (Min (opaque_cols im), Min (opaque_rows im),
                            Max (opaque_cols im) + 1, Max (opaque_rows im) + 1)"
proof -
  have c: "bbox_cols im \<noteq> []" using assms set_bbox_cols [of im] by auto
  have r: "bbox_rows im \<noteq> []"
    using assms set_bbox_rows [of im] opaque_cols_rows_empty [of im] by auto
  have "hd (bbox_cols im) = Min (opaque_cols im)"
    using c assms(1) by (simp add: hd_sorted_Min sorted_bbox_cols set_bbox_cols)
  moreover have "last (bbox_cols im) = Max (opaque_cols im)"
    using c assms(1) by (simp add: last_sorted_Max sorted_bbox_cols set_bbox_cols)
  moreover have "hd (bbox_rows im) = Min (opaque_rows im)"
    using r assms(1) by (simp add: hd_sorted_Min sorted_bbox_rows set_bbox_rows)
  moreover have "last (bbox_rows im) = Max (opaque_rows im)"
    using r assms(1) by (simp add: last_sorted_Max sorted_bbox_rows set_bbox_rows)
  ultimately show ?thesis using c by (simp add: getbbox_def)
qed

lemma finite_opaque_cols: "mode im = RGBA \<Longrightarrow> finite (opaque_cols im)"
  using set_bbox_cols [of im] by (metis List.finite_set)

lemma finite_opaque_rows: "mode im = RGBA \<Longrightarrow> finite (opaque_rows im)"
  using set_bbox_rows [of im] by (metis List.finite_set)

lemma opaque_cols_bounds: "x \<in> opaque_cols im \<Longrightarrow> 0 \<le> x \<and> x < width im"
  by (auto simp: opaque_cols_def opaque_at_def inside_def)

lemma opaque_rows_bounds: "y \<in> opaque_rows im \<Longrightarrow> 0 \<le> y \<and> y < height im"
  by (auto simp: opaque_rows_def opaque_at_def inside_def)

lemma bbox_bounds:
  assumes "mode im = RGBA" "opaque_cols im \<noteq> {}"
  shows "0 \<le> Min (opaque_cols im)" "Min (opaque_cols im) \<le> Max (opaque_cols im)"
        "Max (opaque_cols im) < width im"
        "0 \<le> Min (opaque_rows im)" "Min (opaque_rows im) \<le> Max (opaque_rows im)"
        "Max (opaque_rows im) < height im"
proof -
  have fc: "finite (opaque_cols im)" and fr: "finite (opaque_rows im)"
    using assms(1) by (simp_all add: finite_opaque_cols finite_opaque_rows)
  have ne: "opaque_rows im \<noteq> {}" using assms(2) opaque_cols_rows_empty by simp
  have "Min (opaque_cols im) \<in> opaque_cols im" using fc assms(2) by (rule Min_in)
  then show "0 \<le> Min (opaque_cols im)" using opaque_cols_bounds by blast
  have "Max (opaque_cols im) \<in> opaque_cols im" using fc assms(2) by (rule Max_in)
  then show "Max (opaque_cols im) < width im" using opaque_cols_bounds by blast
  show "Min (opaque_cols im) \<le> Max (opaque_cols im)"
    using fc assms(2) by (simp add: Min_le_iff)
  have "Min (opaque_rows im) \<in> opaque_rows im" using fr ne by (rule Min_in)
  then show "0 \<le> Min (opaque_rows im)" using opaque_rows_bounds by blast
  have "Max (opaque_rows im) \<in> opaque_rows im" using fr ne by (rule Max_in)
  then show "Max (opaque_rows im) < height im" using opaque_rows_bounds by blast
  show "Min (opaque_rows im) \<le> Max (opaque_rows im)"
    using fr ne by (simp add: Min_le_iff)
qed

lemma crop_pixels_inside:
  "inside (width im) (height im) (x1 + i, y1 + j) \<Longrightarrow>
   crop_pixels im x1 y1 (i, j) = pix im (x1 + i, y1 + j)"
  by (simp add: crop_pixels_def)

lemma trim_Some:
  assumes "mode im = RGBA" "opaque_cols im \<noteq> {}"
  shows "trim_default im =
      Inr (Some \<lparr>mode = RGBA,
         width = min (width im) (Max (opaque_cols im) + 1 + 40) - max 0 (Min (opaque_cols im) - 40),
         height = min (height im) (Max (opaque_rows im) + 1 + 20) - max 0 (Min (opaque_rows im) - 20),
         pix = crop_pixels im (max 0 (Min (opaque_cols im) - 40)) (max 0 (Min (opaque_rows im) - 20))\<rparr>)"
proof -
  note b = bbox_bounds [OF assms]
  have vx: "\<not> min (width im) (Max (opaque_cols im) + 1 + 40) < max 0 (Min (opaque_cols im) - 40)"
    using b(1-3) by linarith
  have vy: "\<not> min (height im) (Max (opaque_rows im) + 1 + 20) < max 0 (Min (opaque_rows im) - 20)"
    using b(4-6) by linarith
  show ?thesis
    unfolding trim_default_def get_trimmed_image_with_padding_def getbbox_Some [OF assms] Let_def
    using vx vy assms(1) by simp
qed

text \<open>
  Claim C6.  On an RGBA image the trim returns nothing exactly when no pixel inside the
  image has a non-zero alpha.  Otherwise it returns the crop to the bounding box of those
  pixels, widened by 40 columns to the left and right and by 20 rows above and below, and
  cut at the image borders: the box lies inside the image, contains the bounding box, and
  the result holds the source pixels of that box.
\<close>

theorem trim_with_padding:
  assumes "mode im = RGBA"
  shows "(trim_default im = Inr None \<longleftrightarrow> (\<forall>p. \<not> opaque_at im p))
       \<and> ((\<exists>p. opaque_at im p) \<longrightarrow>
            (let x1 = Min (opaque_cols im); y1 = Min (opaque_rows im);
                 x2 = Max (opaque_cols im) + 1; y2 = Max (opaque_rows im) + 1;
                 nx1 = max 0 (x1 - 40); ny1 = max 0 (y1 - 20);
                 nx2 = min (width im) (x2 + 40); ny2 = min (height im) (y2 + 20)
             in trim_default im
                  = Inr (Some \<lparr>mode = RGBA, width = nx2 - nx1, height = ny2 - ny1,
                               pix = crop_pixels im nx1 ny1\<rparr>)
              \<and> 0 \<le> nx1 \<and> nx1 \<le> x1 \<and> x1 < x2 \<and> x2 \<le> nx2 \<and> nx2 \<le> width im
              \<and> 0 \<le> ny1 \<and> ny1 \<le> y1 \<and> y1 < y2 \<and> y2 \<le> ny2 \<and> ny2 \<le> height im
              \<and> (\<forall>i j. inside (nx2 - nx1) (ny2 - ny1) (i, j) \<longrightarrow>
                     crop_pixels im nx1 ny1 (i, j) = pix im (nx1 + i, ny1 + j))))"
proof (intro conjI impI)
  show "trim_default im = Inr None \<longleftrightarrow> (\<forall>p. \<not> opaque_at im p)"
  proof (cases "opaque_cols im = {}")
    case True
    then have "getbbox im = None" using assms by (simp add: getbbox_None)
    then show ?thesis using True
      by (simp add: trim_default_def get_trimmed_image_with_padding_def opaque_cols_empty)
  next
    case False
    have "trim_default im \<noteq> Inr None"
      unfolding trim_Some [OF assms False] by simp
    then show ?thesis using False by (simp add: opaque_cols_empty)
  qed
next
  assume "\<exists>p. opaque_at im p"
  then have ne: "opaque_cols im \<noteq> {}" by (simp add: opaque_cols_empty)
  note b = bbox_bounds [OF assms ne]
  show "let x1 = Min (opaque_cols im); y1 = Min (opaque_rows im);
                 x2 = Max (opaque_cols im) + 1; y2 = Max (opaque_rows im) + 1;
                 nx1 = max 0 (x1 - 40); ny1 = max 0 (y1 - 20);
                 nx2 = min (width im) (x2 + 40); ny2 = min (height im) (y2 + 20)
             in trim_default im
                  = Inr (Some \<lparr>mode = RGBA, width = nx2 - nx1, height = ny2 - ny1,
                               pix = crop_pixels im nx1 ny1\<rparr>)
              \<and> 0 \<le> nx1 \<and> nx1 \<le> x1 \<and> x1 < x2 \<and> x2 \<le> nx2 \<and> nx2 \<le> width im
              \<and> 0 \<le> ny1 \<and> ny1 \<le> y1 \<and> y1 < y2 \<and> y2 \<le> ny2 \<and> ny2 \<le> height im
              \<and> (\<forall>i j. inside (nx2 - nx1) (ny2 - ny1) (i, j) \<longrightarrow>
                     crop_pixels im nx1 ny1 (i, j) = pix im (nx1 + i, ny1 + j))"
    unfolding Let_def
  proof (intro conjI allI impI)
    show "trim_default im =
      Inr (Some \<lparr>mode = RGBA,
         width = min (width im) (Max (opaque_cols im) + 1 + 40) - max 0 (Min (opaque_cols im) - 40),
         height = min (height im) (Max (opaque_rows im) + 1 + 20) - max 0 (Min (opaque_rows im) - 20),
         pix = crop_pixels im (max 0 (Min (opaque_cols im) - 40)) (max 0 (Min (opaque_rows im) - 20))\<rparr>)"
      by (rule trim_Some [OF assms ne])
  next
    fix i j
    assume "inside (min (width im) (Max (opaque_cols im) + 1 + 40) - max 0 (Min (opaque_cols im) - 40))
         (min (height im) (Max (opaque_rows im) + 1 + 20) - max 0 (Min (opaque_rows im) - 20)) (i, j)"
    then have "inside (width im) (height im)
        (max 0 (Min (opaque_cols im) - 40) + i, max 0 (Min (opaque_rows im) - 20) + j)"
      by (auto simp: inside_def)
    then show "crop_pixels im (max 0 (Min (opaque_cols im) - 40)) (max 0 (Min (opaque_rows im) - 20)) (i, j)
       = pix im (max 0 (Min (opaque_cols im) - 40) + i, max 0 (Min (opaque_rows im) - 20) + j)"
      by (rule crop_pixels_inside)
  qed (use b in linarith)+
qed

lemma square_opaque:
  "opaque_at square_image (x, y) \<longleftrightarrow> 50 \<le> x \<and> x < 60 \<and> 50 \<le> y \<and> y < 60"
  by (auto simp: opaque_at_def square_image_def inside_def clear_def)

lemma Min_Max_50_59: "Min {50..59::int} = 50" "Max {50..59::int} = 59"
  by (auto intro: Min_eqI Max_eqI)

lemma square_cols:
  "Min (opaque_cols square_image) = 50" "Max (opaque_cols square_image) = 59"
proof -
  have "\<exists>y::int. 50 \<le> y \<and> y < 60" by (rule exI [of _ 50]) simp
  then have "opaque_cols square_image = {50..59}"
    by (auto simp: opaque_cols_def square_opaque)
  then show "Min (opaque_cols square_image) = 50" "Max (opaque_cols square_image) = 59"
    by (simp_all only: Min_Max_50_59)
qed

lemma square_rows:
  "Min (opaque_rows square_image) = 50" "Max (opaque_rows square_image) = 59"
proof -
  have "\<exists>x::int. 50 \<le> x \<and> x < 60" by (rule exI [of _ 50]) simp
  then have "opaque_rows square_image = {50..59}"
    by (auto simp: opaque_rows_def square_opaque)
  then show "Min (opaque_rows square_image) = 50" "Max (opaque_rows square_image) = 59"
    by (simp_all only: Min_Max_50_59)
qed

theorem trim_with_padding_witness:
  "mode square_image = RGBA \<and> opaque_at square_image (50, 50)
   \<and> trim_default square_image
       = Inr (Some \<lparr>mode = RGBA, width = 90, height = 50, pix = crop_pixels square_image 10 30\<rparr>)
   \<and> mode blank_image = RGBA \<and> trim_default blank_image = Inr None"
proof -
  have m: "mode square_image = RGBA" by (simp add: square_image_def)
  have o: "opaque_at square_image (50, 50)"
    by (simp add: opaque_at_def square_image_def inside_def)
  have mb: "mode blank_image = RGBA" by (simp add: blank_image_def)
  have nb: "\<forall>p. \<not> opaque_at blank_image p"
    by (simp add: opaque_at_def blank_image_def clear_def)
  have w: "width square_image = 200" "height square_image = 200"
    by (simp_all add: square_image_def)
  have "\<exists>p. opaque_at square_image p" using o by blast
  with trim_with_padding [OF m]
  have "trim_default square_image
       = Inr (Some \<lparr>mode = RGBA, width = 90, height = 50, pix = crop_pixels square_image 10 30\<rparr>)"
    unfolding square_cols square_rows Let_def w by simp
  moreover from trim_with_padding [OF mb] nb have "trim_default blank_image = Inr None"
    by blast
  ultimately show ?thesis using m o mb by simp
qed

subsection \<open>Background removal\<close>

lemma matches_refl: "matches s s"
  by (cases s) simp

lemma seed_like_seed: "inside (width im) (height im) (0, 0) \<Longrightarrow> seed_like im (0, 0)"
  by (simp add: seed_like_def matches_refl)

lemma reach_seed_like: "reach im p \<Longrightarrow> seed_like im p"
  by (induction rule: reach.induct) auto

lemma connected_imp_reach:
  "seed_path im ps p \<Longrightarrow> reach im p"
proof (induction ps arbitrary: p rule: rev_induct)
  case Nil
  then show ?case by (simp add: seed_path_def)
next
  case (snoc q qs)
  show ?case
  proof (cases "qs = []")
    case True
    with snoc.prems show ?thesis
      by (auto simp: seed_path_def intro: reach_seed)
  next
    case False
    from snoc.prems have pq: "p = q" by (simp add: seed_path_def)
    from snoc.prems False have "seed_path im qs (last qs)" and adj: "adjacent (last qs) q"
      and sl: "seed_like im q"
      by (auto simp: seed_path_def successively_append_iff)
    then have "reach im (last qs)" using snoc.IH by blast
    then show ?thesis using adj sl pq by (auto intro: reach_step)
  qed
qed

lemma reach_imp_connected: "reach im p \<Longrightarrow> connected im p"
proof (induction rule: reach.induct)
  case reach_seed
  then have "seed_path im [(0, 0)] (0, 0)" by (simp add: seed_path_def)
  then show ?case unfolding connected_def by blast
next
  case (reach_step p q)
  then obtain ps where ps: "seed_path im ps p" unfolding connected_def by blast
  with reach_step have "seed_path im (ps @ [q]) q"
    by (auto simp: seed_path_def successively_append_iff)
  then show ?case unfolding connected_def by blast
qed

lemma connected_iff_reach: "connected im p \<longleftrightarrow> reach im p"
  using connected_imp_reach reach_imp_connected unfolding connected_def by blast

lemma adjacent_cases:
  "adjacent (x, y) q \<longleftrightarrow> q = (x + 1, y) \<or> q = (x - 1, y) \<or> q = (x, y + 1) \<or> q = (x, y - 1)"
  by (cases q) auto

lemma flood_inv_nbrs:
  assumes "flood_inv im stack visited pixels" "p \<in> visited" "seed_like im p" "adjacent p q"
  shows "q \<in> visited \<or> q \<in> set stack \<or> \<not> inside (width im) (height im) q"
  using assms unfolding flood_inv_def by blast

lemma flood_inv_origin:
  assumes "flood_inv im stack visited pixels"
  shows "inside (width im) (height im) (0, 0)" and "(0, 0) \<in> visited \<or> (0, 0) \<in> set stack"
  using assms unfolding flood_inv_def by blast+

lemma flood_inv_pixels:
  assumes "flood_inv im stack visited pixels"
  shows "pixels p = (if p \<in> visited \<and> matches (pix im (0, 0)) (pix im p) then clear else pix im p)"
  using assms unfolding flood_inv_def by blast

lemma flood_inv_visited:
  assumes "flood_inv im stack visited pixels" "p \<in> visited"
  shows "inside (width im) (height im) p" and "seed_like im p \<Longrightarrow> reach im p"
  using assms unfolding flood_inv_def by blast+

lemma flood_inv_stack:
  assumes "flood_inv im stack visited pixels" "p \<in> set stack" "seed_like im p"
  shows "reach im p"
  using assms unfolding flood_inv_def by blast

lemma flood_invI:
  assumes "inside (width im) (height im) (0, 0)"
    and "\<And>p. pixels p = (if p \<in> visited \<and> matches (pix im (0, 0)) (pix im p)
                          then clear else pix im p)"
    and "\<And>p. p \<in> visited \<Longrightarrow> inside (width im) (height im) p"
    and "\<And>p. p \<in> visited \<Longrightarrow> seed_like im p \<Longrightarrow> reach im p"
    and "\<And>p. p \<in> set stack \<Longrightarrow> seed_like im p \<Longrightarrow> reach im p"
    and "\<And>p q. p \<in> visited \<Longrightarrow> seed_like im p \<Longrightarrow> adjacent p q \<Longrightarrow>
            q \<in> visited \<or> q \<in> set stack \<or> \<not> inside (width im) (height im) q"
    and "(0, 0) \<in> visited \<or> (0, 0) \<in> set stack"
  shows "flood_inv im stack visited pixels"
  unfolding flood_inv_def using assms by blast

lemma flood_inv_skip:
  assumes inv: "flood_inv im ((x, y) # stack) visited pixels"
    and sk: "(x, y) \<in> visited \<or> \<not> inside (width im) (height im) (x, y)"
  shows "flood_inv im stack visited pixels"
proof (rule flood_invI)
  show i0: "inside (width im) (height im) (0, 0)" by (rule flood_inv_origin(1) [OF inv])
  show "pixels p = (if p \<in> visited \<and> matches (pix im (0, 0)) (pix im p) then clear else pix im p)"
    for p by (rule flood_inv_pixels [OF inv])
  show "p \<in> visited \<Longrightarrow> inside (width im) (height im) p" for p
    by (rule flood_inv_visited(1) [OF inv])
  show "p \<in> visited \<Longrightarrow> seed_like im p \<Longrightarrow> reach im p" for p
    by (rule flood_inv_visited(2) [OF inv])
  show "p \<in> set stack \<Longrightarrow> seed_like im p \<Longrightarrow> reach im p" for p
    using flood_inv_stack [OF inv, of p] by simp
  show "q \<in> visited \<or> q \<in> set stack \<or> \<not> inside (width im) (height im) q"
    if "p \<in> visited" "seed_like im p" "adjacent p q" for p q
    using flood_inv_nbrs [OF inv that] sk by auto
  show "(0, 0) \<in> visited \<or> (0, 0) \<in> set stack"
    using flood_inv_origin(2) [OF inv] sk i0 by auto
qed

lemma flood_inv_clear:
  assumes inv: "flood_inv im ((x, y) # stack) visited pixels"
    and nv: "(x, y) \<notin> visited" and ins: "inside (width im) (height im) (x, y)"
    and m: "matches (pix im (0, 0)) (pixels (x, y))"
  shows "flood_inv im ((x, y - 1) # (x, y + 1) # (x - 1, y) # (x + 1, y) # stack)
           (insert (x, y) visited) (pixels((x, y) := clear))"
proof (rule flood_invI)
  let ?stack = "(x, y - 1) # (x, y + 1) # (x - 1, y) # (x + 1, y) # stack"
  from flood_inv_pixels [OF inv, of "(x, y)"] nv
  have orig: "pixels (x, y) = pix im (x, y)" by simp
  with m ins have sl: "seed_like im (x, y)" by (simp add: seed_like_def)
  have r: "reach im (x, y)" using flood_inv_stack [OF inv _ sl] by simp
  show "inside (width im) (height im) (0, 0)" by (rule flood_inv_origin(1) [OF inv])
  show "(pixels((x, y) := clear)) p =
        (if p \<in> insert (x, y) visited \<and> matches (pix im (0, 0)) (pix im p) then clear else pix im p)"
    for p using flood_inv_pixels [OF inv, of p] m orig by (cases "p = (x, y)") simp_all
  show "p \<in> insert (x, y) visited \<Longrightarrow> inside (width im) (height im) p" for p
    using flood_inv_visited(1) [OF inv, of p] ins by (cases "p = (x, y)") simp_all
  show "p \<in> insert (x, y) visited \<Longrightarrow> seed_like im p \<Longrightarrow> reach im p" for p
    using flood_inv_visited(2) [OF inv, of p] r by (cases "p = (x, y)") simp_all
  show "reach im p" if p: "p \<in> set ?stack" "seed_like im p" for p
  proof (cases "p \<in> set stack")
    case True
    then show ?thesis using flood_inv_stack [OF inv _ p(2)] by simp
  next
    case False
    with p(1) have "adjacent (x, y) p" by (auto simp: adjacent_cases)
    with r show ?thesis using p(2) by (rule reach_step)
  qed
  show "q \<in> insert (x, y) visited \<or> q \<in> set ?stack \<or> \<not> inside (width im) (height im) q"
    if p: "p \<in> insert (x, y) visited" "seed_like im p" "adjacent p q" for p q
  proof (cases "p = (x, y)")
    case True
    with p(3) show ?thesis by (auto simp: adjacent_cases)
  next
    case False
    with p(1) have "p \<in> visited" by simp
    from flood_inv_nbrs [OF inv this p(2,3)] show ?thesis by auto
  qed
  show "(0, 0) \<in> insert (x, y) visited \<or> (0, 0) \<in> set ?stack"
    using flood_inv_origin(2) [OF inv] by auto
qed

lemma flood_inv_keep:
  assumes inv: "flood_inv im ((x, y) # stack) visited pixels"
    and nv: "(x, y) \<notin> visited" and ins: "inside (width im) (height im) (x, y)"
    and m: "\<not> matches (pix im (0, 0)) (pixels (x, y))"
  shows "flood_inv im stack (insert (x, y) visited) pixels"
proof (rule flood_invI)
  from flood_inv_pixels [OF inv, of "(x, y)"] nv
  have orig: "pixels (x, y) = pix im (x, y)" by simp
  with m have nsl: "\<not> seed_like im (x, y)" by (simp add: seed_like_def)
  show "inside (width im) (height im) (0, 0)" by (rule flood_inv_origin(1) [OF inv])
  show "pixels p =
        (if p \<in> insert (x, y) visited \<and> matches (pix im (0, 0)) (pix im p) then clear else pix im p)"
    for p using flood_inv_pixels [OF inv, of p] m orig by (cases "p = (x, y)") simp_all
  show "p \<in> insert (x, y) visited \<Longrightarrow> inside (width im) (height im) p" for p
    using flood_inv_visited(1) [OF inv, of p] ins by (cases "p = (x, y)") simp_all
  show "p \<in> insert (x, y) visited \<Longrightarrow> seed_like im p \<Longrightarrow> reach im p" for p
    using flood_inv_visited(2) [OF inv, of p] nsl by (cases "p = (x, y)") simp_all
  show "p \<in> set stack \<Longrightarrow> seed_like im p \<Longrightarrow> reach im p" for p
    using flood_inv_stack [OF inv, of p] by simp
  show "q \<in> insert (x, y) visited \<or> q \<in> set stack \<or> \<not> inside (width im) (height im) q"
    if p: "p \<in> insert (x, y) visited" "seed_like im p" "adjacent p q" for p q
  proof -
    from p(1,2) nsl have "p \<in> visited" by auto
    from flood_inv_nbrs [OF inv this p(2,3)] show ?thesis by auto
  qed
  show "(0, 0) \<in> insert (x, y) visited \<or> (0, 0) \<in> set stack"
    using flood_inv_origin(2) [OF inv] by auto
qed

lemma flood_inv_done:
  assumes inv: "flood_inv im [] visited pixels"
  shows "pixels p = (if reach im p then clear else pix im p)"
proof -
  have closed: "reach im q \<Longrightarrow> q \<in> visited" for q
  proof (induction rule: reach.induct)
    case reach_seed
    then show ?case using flood_inv_origin(2) [OF inv] by simp
  next
    case (reach_step p q)
    have "seed_like im p" using reach_step(1) by (rule reach_seed_like)
    from flood_inv_nbrs [OF inv reach_step(4) this reach_step(2)]
    have "q \<in> visited \<or> \<not> inside (width im) (height im) q" by simp
    with reach_step(3) show ?case by (simp add: seed_like_def)
  qed
  have "p \<in> visited \<and> matches (pix im (0, 0)) (pix im p) \<longleftrightarrow> reach im p"
  proof
    assume v: "p \<in> visited \<and> matches (pix im (0, 0)) (pix im p)"
    then have "seed_like im p" using flood_inv_visited(1) [OF inv, of p] by (simp add: seed_like_def)
    then show "reach im p" using flood_inv_visited(2) [OF inv, of p] v by simp
  next
    assume r: "reach im p"
    then show "p \<in> visited \<and> matches (pix im (0, 0)) (pix im p)"
      using closed reach_seed_like [OF r] by (simp add: seed_like_def)
  qed
  then show ?thesis using flood_inv_pixels [OF inv, of p] by simp
qed

lemma flood_skip:
  "(x, y) \<in> visited \<or> \<not> (0 \<le> x \<and> x < w \<and> 0 \<le> y \<and> y < h) \<Longrightarrow>
   flood w h seed ((x, y) # stack) visited pixels = flood w h seed stack visited pixels"
  by (subst flood.simps) simp

lemma flood_clear:
  "\<not> ((x, y) \<in> visited \<or> \<not> (0 \<le> x \<and> x < w \<and> 0 \<le> y \<and> y < h)) \<Longrightarrow>
   matches seed (pixels (x, y)) \<Longrightarrow>
   flood w h seed ((x, y) # stack) visited pixels
     = flood w h seed ((x, y - 1) # (x, y + 1) # (x - 1, y) # (x + 1, y) # stack)
         (insert (x, y) visited) (pixels((x, y) := clear))"
  by (subst flood.simps) simp

lemma flood_keep:
  "\<not> ((x, y) \<in> visited \<or> \<not> (0 \<le> x \<and> x < w \<and> 0 \<le> y \<and> y < h)) \<Longrightarrow>
   \<not> matches seed (pixels (x, y)) \<Longrightarrow>
   flood w h seed ((x, y) # stack) visited pixels
     = flood w h seed stack (insert (x, y) visited) pixels"
  by (subst flood.simps) simp

lemma flood_correct:
  assumes "flood_inv im stack visited pixels" "w = width im" "h = height im" "seed = pix im (0, 0)"
  shows "flood w h seed stack visited pixels p = (if reach im p then clear else pix im p)"
  using assms
proof (induction w h seed stack visited pixels rule: flood.induct)
  case (1 design_w design_h seed visited pixels)
  then show ?case by (simp add: flood_inv_done flood.simps(1))
next
  case (2 design_w design_h seed x y stack visited pixels)
  note eqs = "2.prems"(2-4)
  have ins: "inside (width im) (height im) (x, y) \<longleftrightarrow>
        (0 \<le> x \<and> x < design_w \<and> 0 \<le> y \<and> y < design_h)"
    using eqs by (auto simp: inside_def)
  show ?case
  proof (cases "(x, y) \<in> visited \<or> \<not> (0 \<le> x \<and> x < design_w \<and> 0 \<le> y \<and> y < design_h)")
    case True
    then have "flood_inv im stack visited pixels"
      using flood_inv_skip [OF "2.prems"(1)] ins by blast
    then have "flood design_w design_h seed stack visited pixels p
                 = (if reach im p then clear else pix im p)"
      using "2.IH"(1) [OF True] eqs by blast
    then show ?thesis using flood_skip [of x y visited design_w design_h seed stack pixels] True by simp
  next
    case False
    then have nv: "(x, y) \<notin> visited" and i: "inside (width im) (height im) (x, y)"
      using ins by auto
    show ?thesis
    proof (cases "matches seed (pixels (x, y))")
      case True
      then have "flood_inv im ((x, y - 1) # (x, y + 1) # (x - 1, y) # (x + 1, y) # stack)
           (insert (x, y) visited) (pixels((x, y) := clear))"
        using flood_inv_clear [OF "2.prems"(1) nv i] eqs by simp
      then have "flood design_w design_h seed
             ((x, y - 1) # (x, y + 1) # (x - 1, y) # (x + 1, y) # stack)
             (insert (x, y) visited) (pixels((x, y) := clear)) p
                 = (if reach im p then clear else pix im p)"
        using "2.IH"(2) [OF False True] eqs by blast
      then show ?thesis using flood_clear [of x y visited design_w design_h seed pixels stack] False True by simp
    next
      case nm: False
      then have "flood_inv im stack (insert (x, y) visited) pixels"
        using flood_inv_keep [OF "2.prems"(1) nv i] eqs by simp
      then have "flood design_w design_h seed stack (insert (x, y) visited) pixels p
                 = (if reach im p then clear else pix im p)"
        using "2.IH"(3) [OF False nm] eqs by blast
      then show ?thesis using flood_keep [of x y visited design_w design_h seed pixels stack] False nm by simp
    qed
  qed
qed

lemma flood_inv_init:
  "inside (width im) (height im) (0, 0) \<Longrightarrow> flood_inv im [(0, 0)] {} (pix im)"
  by (rule flood_invI) (simp_all add: reach_seed)

text \<open>
  Claim C2.  On an image with at least one pixel the background removal returns an image
  of the same mode and size in which a pixel is \<open>(0, 0, 0, 0)\<close> if a 4-connected path
  leads to it from \<open>(0, 0)\<close> through pixels of the image whose red, green and blue each
  differ from those of the pixel at \<open>(0, 0)\<close> by less than 30, and is the original pixel
  otherwise, whatever its colour.
\<close>

theorem flood_fill_connected:
  assumes "0 < width im" and "0 < height im"
  shows "\<exists>out. remove_background im = Inr out
           \<and> mode out = mode im \<and> width out = width im \<and> height out = height im
           \<and> (\<forall>p. pix out p = (if connected im p then clear else pix im p))"
proof -
  have i: "inside (width im) (height im) (0, 0)" using assms by (simp add: inside_def)
  let ?out = "im\<lparr>pix := flood (width im) (height im) (pix im (0, 0)) [(0, 0)] {} (pix im)\<rparr>"
  have "remove_background im = Inr ?out" using i by (simp add: remove_background_def)
  moreover have "\<forall>p. pix ?out p = (if connected im p then clear else pix im p)"
    using flood_correct [OF flood_inv_init [OF i] refl refl refl]
    by (simp add: connected_iff_reach)
  ultimately show ?thesis by simp
qed

lemma island_reach: "reach island p \<Longrightarrow> p = (0, 0)"
proof (induction rule: reach.induct)
  case reach_seed
  show ?case by simp
next
  case (reach_step p q)
  then have "adjacent (0, 0) q" by simp
  then have "q = (1, 0) \<or> q = (-1, 0) \<or> q = (0, 1) \<or> q = (0, -1)"
    by (simp add: adjacent_cases)
  with reach_step(3) show ?case
    by (auto simp: seed_like_def island_def inside_def)
qed

theorem flood_fill_connected_witness:
  "0 < width island \<and> 0 < height island
   \<and> (\<exists>out. remove_background island = Inr out
         \<and> pix out (0, 0) = clear
         \<and> pix out (1, 0) = (0, 0, 0, 255)
         \<and> pix out (2, 0) = (250, 250, 250, 255))"
proof -
  have w: "0 < width island" and h: "0 < height island" by (simp_all add: island_def)
  have c0: "connected island (0, 0)"
    unfolding connected_iff_reach
    by (rule reach_seed) (simp add: seed_like_def island_def inside_def)
  have c1: "\<not> connected island (1, 0)" and c2: "\<not> connected island (2, 0)"
    unfolding connected_iff_reach using island_reach by fastforce+
  from flood_fill_connected [OF w h] obtain out where
    out: "remove_background island = Inr out"
      "\<forall>p. pix out p = (if connected island p then clear else pix island p)" by blast
  have "pix out (0, 0) = clear" using out(2) c0 by simp
  moreover have "pix out (1, 0) = (0, 0, 0, 255)" using out(2) c1 by (simp add: island_def)
  moreover have "pix out (2, 0) = (250, 250, 250, 255)" using out(2) c2 by (simp add: island_def)
  ultimately show ?thesis using w h out(1) by blast
qed

subsection \<open>The float operations\<close>

lemma pow2_powi: "pow2 e = 2 powi e"
  by (simp add: pow2_def power_int_def inverse_eq_divide power_one_over)

lemma bitlen_bounds: "0 < n \<Longrightarrow> 2 ^ (bitlen n - 1) \<le> n \<and> n < 2 ^ bitlen n"
proof (induction n rule: bitlen.induct)
  case (1 n)
  show ?case
  proof (cases "n div 2 = 0")
    case True
    with "1.prems" have n: "n = Suc 0" by (auto simp: div_eq_0_iff)
    have "bitlen (Suc 0) = Suc 0"
      by (simp add: bitlen.simps [of "Suc 0"] bitlen.simps [of 0])
    then show ?thesis using n by simp
  next
    case False
    then have ih: "2 ^ (bitlen (n div 2) - 1) \<le> n div 2 \<and> n div 2 < 2 ^ bitlen (n div 2)"
      using "1.IH" "1.prems" by simp
    have b: "bitlen n = Suc (bitlen (n div 2))" using "1.prems" by (subst bitlen.simps) simp
    have p: "0 < bitlen (n div 2)" using False by (subst bitlen.simps) simp
    from ih have "2 * 2 ^ (bitlen (n div 2) - 1) \<le> n" by linarith
    moreover have "2 * 2 ^ (bitlen (n div 2) - 1) = (2::nat) ^ bitlen (n div 2)"
      using p by (cases "bitlen (n div 2)") simp_all
    moreover from ih have "n < 2 * 2 ^ bitlen (n div 2)" by linarith
    ultimately show ?thesis by (simp add: b)
  qed
qed

lemma floor_log2_bounds:
  assumes "0 < x"
  shows "pow2 (floor_log2 x) \<le> x \<and> x < pow2 (floor_log2 x + 1)"
proof -
  obtain p q where pq: "quotient_of x = (p, q)" by (cases "quotient_of x")
  then have q: "0 < q" and x: "x = of_int p / of_int q"
    using quotient_of_denom_pos quotient_of_div by blast+
  with assms have p: "0 < p" by (simp add: zero_less_divide_iff)
  define bp where "bp = bitlen (nat p)"
  define bq where "bq = bitlen (nat q)"
  define k where "k = int bp - int bq"
  have np: "2 ^ (bp - 1) \<le> nat p \<and> nat p < 2 ^ bp"
    unfolding bp_def using p by (intro bitlen_bounds) simp
  have nq: "2 ^ (bq - 1) \<le> nat q \<and> nat q < 2 ^ bq"
    unfolding bq_def using q by (intro bitlen_bounds) simp
  have bp1: "0 < bp" using np p by (cases bp) auto
  have bq1: "0 < bq" using nq q by (cases bq) auto
  have rp: "(2::rat) ^ (bp - 1) \<le> of_int p \<and> of_int p < (2::rat) ^ bp"
  proof -
    have "of_nat (2 ^ (bp - 1)) \<le> (of_nat (nat p) :: rat) \<and> (of_nat (nat p) :: rat) < of_nat (2 ^ bp)"
      using np by (simp only: of_nat_le_iff of_nat_less_iff)
    then show ?thesis using p by simp
  qed
  have rq: "(2::rat) ^ (bq - 1) \<le> of_int q \<and> of_int q < (2::rat) ^ bq"
  proof -
    have "of_nat (2 ^ (bq - 1)) \<le> (of_nat (nat q) :: rat) \<and> (of_nat (nat q) :: rat) < of_nat (2 ^ bq)"
      using nq by (simp only: of_nat_le_iff of_nat_less_iff)
    then show ?thesis using q by simp
  qed
  have qpos: "(0::rat) < of_int q" using q by simp
  have up: "x < pow2 (k + 1)"
  proof -
    have "pow2 (k + 1) = 2 ^ bp / 2 ^ (bq - 1)"
      using bq1 unfolding pow2_powi k_def
      by (cases bq) (simp_all add: power_int_diff power_int_add field_simps)
    moreover have "of_int p / of_int q < (2::rat) ^ bp / 2 ^ (bq - 1)"
    proof -
      have "of_int p / of_int q < (2::rat) ^ bp / of_int q"
        using rp qpos by (simp add: divide_strict_right_mono)
      also have "\<dots> \<le> 2 ^ bp / 2 ^ (bq - 1)"
        using rq by (simp add: frac_le)
      finally show ?thesis .
    qed
    ultimately show ?thesis using x by simp
  qed
  have lo: "pow2 (k - 1) \<le> x"
  proof -
    have "pow2 (k - 1) = 2 ^ (bp - 1) / 2 ^ bq"
      using bp1 unfolding pow2_powi k_def
      by (cases bp) (simp_all add: power_int_diff power_int_add field_simps)
    moreover have "(2::rat) ^ (bp - 1) / 2 ^ bq \<le> of_int p / of_int q"
    proof -
      have "(2::rat) ^ (bp - 1) / 2 ^ bq \<le> of_int p / 2 ^ bq"
        using rp by (simp add: divide_right_mono)
      also have "\<dots> \<le> of_int p / of_int q"
        using rq qpos p by (simp add: frac_le)
      finally show ?thesis .
    qed
    ultimately show ?thesis using x by simp
  qed
  have f: "floor_log2 x = (if pow2 k \<le> x then k else k - 1)"
    by (simp add: floor_log2_def pq Let_def k_def bp_def bq_def)
  show ?thesis
  proof (cases "pow2 k \<le> x")
    case True
    then show ?thesis using f up by simp
  next
    case False
    then show ?thesis using f lo by simp
  qed
qed

lemma pow2_pos: "0 < pow2 e"
  by (simp add: pow2_def)

lemma round_half_even_cases:
  obtains (down) "x - of_int \<lfloor>x\<rfloor> < 1 / 2" "round_half_even x = \<lfloor>x\<rfloor>"
  | (up) "1 / 2 < x - of_int \<lfloor>x\<rfloor>" "round_half_even x = \<lfloor>x\<rfloor> + 1"
  | (tie) "x - of_int \<lfloor>x\<rfloor> = 1 / 2" "even (round_half_even x)"
      "round_half_even x = \<lfloor>x\<rfloor> \<or> round_half_even x = \<lfloor>x\<rfloor> + 1"
proof -
  consider "x - of_int \<lfloor>x\<rfloor> < 1 / 2" | "1 / 2 < x - of_int \<lfloor>x\<rfloor>"
    | "x - of_int \<lfloor>x\<rfloor> = 1 / 2" by linarith
  then show ?thesis
  proof cases
    case 1
    then show ?thesis using down by (simp add: round_half_even_def Let_def)
  next
    case 2
    then show ?thesis using up by (simp add: round_half_even_def Let_def)
  next
    case 3
    then show ?thesis using tie by (simp add: round_half_even_def Let_def)
  qed
qed

lemma round_half_even_near: "\<bar>x - of_int (round_half_even x)\<bar> \<le> 1 / 2"
proof -
  have f: "of_int \<lfloor>x\<rfloor> \<le> x" "x < of_int \<lfloor>x\<rfloor> + 1" by linarith+
  show ?thesis
  proof (cases x rule: round_half_even_cases)
    case down
    then show ?thesis using f by simp
  next
    case up
    then show ?thesis using f by simp
  next
    case tie
    then show ?thesis using f by auto
  qed
qed

lemma round_half_even_tie:
  assumes "\<bar>x - of_int (round_half_even x)\<bar> = 1 / 2"
  shows "even (round_half_even x)"
proof (cases x rule: round_half_even_cases)
  case down
  have "of_int \<lfloor>x\<rfloor> \<le> x" by linarith
  then have "\<bar>x - of_int \<lfloor>x\<rfloor>\<bar> = x - of_int \<lfloor>x\<rfloor>" by simp
  with down assms show ?thesis by simp
next
  case up
  have "x < of_int \<lfloor>x\<rfloor> + 1" by linarith
  then have "\<bar>x - of_int (\<lfloor>x\<rfloor> + 1)\<bar> = of_int \<lfloor>x\<rfloor> + 1 - x" by simp
  with up assms have "of_int \<lfloor>x\<rfloor> + 1 - x = 1 / 2" by simp
  with up(1) show ?thesis by linarith
next
  case tie
  then show ?thesis by simp
qed

lemma round_half_even_int: "round_half_even (of_int n) = n"
  by (simp add: round_half_even_def)

lemma round_double_half_ulp:
  assumes "x \<noteq> 0" and "round_double x = Inr r"
  shows "\<exists>m. r = of_int m * pow2 (max (floor_log2 \<bar>x\<bar> - 52) (- 1074))
           \<and> \<bar>m\<bar> \<le> 2 ^ 53
           \<and> \<bar>r - x\<bar> \<le> pow2 (max (floor_log2 \<bar>x\<bar> - 52) (- 1074)) / 2"
proof -
  define a where "a = \<bar>x\<bar>"
  define e where "e = max (floor_log2 a - 52) (- 1074)"
  define m where "m = round_half_even (a / pow2 e)"
  have apos: "0 < a" using assms(1) by (simp add: a_def)
  have ppos: "0 < pow2 e" by (rule pow2_pos)
  have r: "r = (if x < 0 then - (of_int m * pow2 e) else of_int m * pow2 e)"
    using assms by (simp add: round_double_def Let_def a_def e_def m_def split: if_splits)
  have near: "\<bar>a / pow2 e - of_int m\<bar> \<le> 1 / 2"
    unfolding m_def by (rule round_half_even_near)
  have "\<bar>a - of_int m * pow2 e\<bar> = \<bar>a / pow2 e - of_int m\<bar> * pow2 e"
  proof -
    have "a - of_int m * pow2 e = (a / pow2 e - of_int m) * pow2 e"
      using ppos by (simp add: field_simps)
    then show ?thesis using ppos by (simp add: abs_mult)
  qed
  also have "\<dots> \<le> 1 / 2 * pow2 e"
    using near ppos by (intro mult_right_mono) simp_all
  finally have err: "\<bar>a - of_int m * pow2 e\<bar> \<le> pow2 e / 2" by simp
  have lt: "a < pow2 (floor_log2 a + 1)" using floor_log2_bounds [OF apos] by blast
  have "pow2 (floor_log2 a + 1) \<le> pow2 (e + 53)"
    unfolding pow2_powi e_def by (intro power_int_increasing) simp_all
  with lt have "a < pow2 (e + 53)" by simp
  also have "pow2 (e + 53) = pow2 e * 2 ^ 53"
    unfolding pow2_powi by (simp add: power_int_add)
  finally have "a / pow2 e < 2 ^ 53" using ppos by (simp add: field_simps)
  moreover have "0 \<le> a / pow2 e" using apos ppos by simp
  ultimately have mb: "0 \<le> m \<and> m \<le> 2 ^ 53"
  proof -
    assume u: "a / pow2 e < 2 ^ 53" and l: "0 \<le> a / pow2 e"
    have "of_int m \<le> a / pow2 e + 1 / 2" "a / pow2 e - 1 / 2 \<le> of_int m"
      using near by linarith+
    with u l have "(of_int m :: rat) < 2 ^ 53 + 1" "(- 1 :: rat) < of_int m" by linarith+
    then have "(of_int m :: rat) < of_int (2 ^ 53 + 1)" "(of_int (- 1) :: rat) < of_int m"
      by simp_all
    then have "m < 2 ^ 53 + 1" "- 1 < m" by (simp_all only: of_int_less_iff)
    then show ?thesis by simp
  qed
  show ?thesis
  proof (intro exI [of _ "if x < 0 then - m else m"] conjI)
    show "r = of_int (if x < 0 then - m else m) * pow2 (max (floor_log2 \<bar>x\<bar> - 52) (- 1074))"
      using r by (simp add: e_def a_def)
    show "\<bar>if x < 0 then - m else m\<bar> \<le> 2 ^ 53" using mb by simp
    show "\<bar>r - x\<bar> \<le> pow2 (max (floor_log2 \<bar>x\<bar> - 52) (- 1074)) / 2"
      using err r by (auto simp: a_def e_def abs_if split: if_splits)
  qed
qed

subsection \<open>Scaling and placement\<close>

lemma true_div_200_100: "true_div 200 100 = Inr 2"
  by code_simp

lemma true_div_200_50: "true_div 200 50 = Inr 4"
  by code_simp

lemma int_times_float_100_2: "int_times_float 100 2 = Inr 200"
  by code_simp

lemma int_times_float_50_2: "int_times_float 50 2 = Inr 100"
  by code_simp

lemma fit_size_example:
  "fit_size 100 50 \<lparr>cx = x, cy = y, cw = 200, ch = 200\<rparr> = Inr (2, 200, 100)"
  by (simp add: fit_size_def true_div_200_100 true_div_200_50 int_times_float_100_2
      int_times_float_50_2 py_int_def)

lemma fit_size_zero_width: "fit_size 0 dh c = Inl ZeroDivisionError"
  by (simp add: fit_size_def true_div_def)

subsection \<open>Counters\<close>

lemma same_counters_refl: "same_counters st st"
  by (simp add: same_counters_def)

lemma same_counters_trans:
  "same_counters a b \<Longrightarrow> same_counters b c \<Longrightarrow> same_counters a c"
  by (simp add: same_counters_def)

lemma mockup_step_counters:
  "mockup_step w cfg im iw fn n st = (r, st') \<Longrightarrow> same_counters st st'"
  by (auto simp: mockup_step_def same_counters_def Let_def
      split: option.splits sum.splits)

lemma mockup_loop_counters:
  "mockup_loop w cfg im iw fn ns st = (r, st') \<Longrightarrow> same_counters st st'"
proof (induction ns arbitrary: st)
  case Nil
  then show ?case by (simp add: same_counters_refl)
next
  case (Cons n ns)
  obtain r1 st1 where s: "mockup_step w cfg im iw fn n st = (r1, st1)"
    by (cases "mockup_step w cfg im iw fn n st")
  then have c1: "same_counters st st1" by (rule mockup_step_counters)
  show ?case
  proof (cases r1)
    case None
    with Cons.prems s have "mockup_loop w cfg im iw fn ns st1 = (r, st')" by simp
    then have "same_counters st1 st'" by (rule Cons.IH)
    with c1 show ?thesis by (rule same_counters_trans)
  next
    case (Some e)
    with Cons.prems s have "st' = st1" by simp
    with c1 show ?thesis by simp
  qed
qed

lemma try_block_counters:
  "try_block w cfg r u fn st = (out, st') \<Longrightarrow> same_counters st st'"
  by (auto simp: try_block_def Let_def same_counters_refl
      split: option.splits sum.splits prod.splits if_splits
      dest: mockup_loop_counters)


lemma process_url_counts:
  "(processed_count (process_url w cfg rules u st) = processed_count st + 1
      \<and> skipped_count (process_url w cfg rules u st) = skipped_count st)
   \<or> (processed_count (process_url w cfg rules u st) = processed_count st
      \<and> skipped_count (process_url w cfg rules u st) = skipped_count st + 1)"
proof (cases "match_rule rules (basename u)")
  case None
  then show ?thesis by (simp add: process_url_def)
next
  case (Some r)
  show ?thesis
  proof (cases "action r = Some ''skip''")
    case True
    with Some show ?thesis by (simp add: process_url_def)
  next
    case False
    obtain out st' where t: "try_block w cfg r u (basename u) st = (out, st')"
      by (cases "try_block w cfg r u (basename u) st")
    then have "same_counters st st'" by (rule try_block_counters)
    then show ?thesis using Some False t
      by (cases out) (simp_all add: process_url_def same_counters_def)
  qed
qed

lemma url_loop_counts:
  "processed_count (url_loop w cfg rules us st) + skipped_count (url_loop w cfg rules us st)
     = processed_count st + skipped_count st + length us"
proof (induction us arbitrary: st)
  case Nil
  show ?case by simp
next
  case (Cons u us)
  have "processed_count (process_url w cfg rules u st) + skipped_count (process_url w cfg rules u st)
          = processed_count st + skipped_count st + 1"
    using process_url_counts [of w cfg rules u st] by auto
  then show ?case using Cons.IH [of "process_url w cfg rules u st"] by simp
qed

lemma dict_set_values:
  "(k', v') \<in> set (dict_set k v d) \<Longrightarrow> (k', v') = (k, v) \<or> (k', v') \<in> set d"
  by (induction d) (auto split: if_splits)

lemma map_of_dict_set: "map_of (dict_set k v d) = (map_of d)(k \<mapsto> v)"
  by (induction d) auto

lemma dict_set_keys: "fst ` set (dict_set k v d) = insert k (fst ` set d)"
  using map_of_dict_set [of k v d] by (metis dom_map_of_conv_image_fst dom_fun_upd option.simps(3))

lemma process_domain_summary:
  assumes "url_list w d = Some all_urls"
    and "compute_window (max_urls_per_domain cfg) (log_get (processed_log st) d) all_urls \<noteq> []"
  shows "\<exists>s. map_of (urls_summary (process_domain w cfg d rules st)) d = Some s
           \<and> total_to_process s
               = length (compute_window (max_urls_per_domain cfg)
                           (log_get (processed_log st) d) all_urls)
           \<and> processed s + skipped s = total_to_process s"
  using assms
  by (simp add: process_domain_def Let_def map_of_dict_set url_loop_counts)

lemma process_domain_balanced:
  assumes "\<forall>(k, s) \<in> set (urls_summary st). balanced s"
  shows "\<forall>(k, s) \<in> set (urls_summary (process_domain w cfg d rules st)). balanced s"
proof (cases "url_list w d")
  case None
  then show ?thesis using assms by (simp add: process_domain_def)
next
  case (Some all_urls)
  let ?win = "compute_window (max_urls_per_domain cfg) (log_get (processed_log st) d) all_urls"
  show ?thesis
  proof (cases "?win = []")
    case True
    then show ?thesis using Some assms by (simp add: process_domain_def)
  next
    case False
    then show ?thesis using Some assms
      by (auto simp: process_domain_def Let_def balanced_def url_loop_counts
          dest!: dict_set_values)
  qed
qed

lemma domain_loop_balanced:
  assumes "\<forall>(k, s) \<in> set (urls_summary st). balanced s"
  shows "\<forall>(k, s) \<in> set (urls_summary (domain_loop w cfg n ds st)). balanced s"
  using assms
proof (induction ds arbitrary: n st)
  case Nil
  then show ?case by simp
next
  case (Cons a ds)
  obtain d rules where a: "a = (d, rules)" by (cases a)
  show ?case
    using Cons.prems Cons.IH [OF process_domain_balanced [OF Cons.prems]]
    by (simp add: a)
qed

text \<open>
  Claim C10.  Every round of the URL loop raises exactly one of the two counters by one,
  whatever the rule match, the download, the checks and the compositing do.  So for a
  domain whose list was fetched and whose window is not empty the recorded summary has
  the length of the window as \<open>total_to_process\<close> and \<open>processed + skipped\<close> equal to it,
  and every summary of a run adds up in this way.
\<close>

theorem counters_partition_window:
  "((processed_count (process_url w cfg rules u st) = processed_count st + 1
       \<and> skipped_count (process_url w cfg rules u st) = skipped_count st)
    \<or> (processed_count (process_url w cfg rules u st) = processed_count st
       \<and> skipped_count (process_url w cfg rules u st) = skipped_count st + 1))
   \<and> (\<forall>all_urls.
         url_list w d = Some all_urls
         \<and> compute_window (max_urls_per_domain cfg) (log_get (processed_log ms) d) all_urls \<noteq> []
         \<longrightarrow> (\<exists>s. map_of (urls_summary (process_domain w cfg d rules ms)) d = Some s
                \<and> total_to_process s
                    = length (compute_window (max_urls_per_domain cfg)
                                (log_get (processed_log ms) d) all_urls)
                \<and> processed s + skipped s = total_to_process s))
   \<and> (\<forall>(k, s) \<in> set (generate_log (run w cfg lg)).
         processed s + skipped s = total_to_process s)"
proof (intro conjI allI impI)
  show "(processed_count (process_url w cfg rules u st) = processed_count st + 1
       \<and> skipped_count (process_url w cfg rules u st) = skipped_count st)
    \<or> (processed_count (process_url w cfg rules u st) = processed_count st
       \<and> skipped_count (process_url w cfg rules u st) = skipped_count st + 1)"
    by (rule process_url_counts)
next
  fix all_urls
  assume "url_list w d = Some all_urls
         \<and> compute_window (max_urls_per_domain cfg) (log_get (processed_log ms) d) all_urls \<noteq> []"
  then show "\<exists>s. map_of (urls_summary (process_domain w cfg d rules ms)) d = Some s
                \<and> total_to_process s
                    = length (compute_window (max_urls_per_domain cfg)
                                (log_get (processed_log ms) d) all_urls)
                \<and> processed s + skipped s = total_to_process s"
    using process_domain_summary by blast
next
  have "\<forall>(k, s) \<in> set (urls_summary
          (domain_loop w cfg 0 (domains cfg)
             \<lparr>processed_log = lg, images = [], urls_summary = []\<rparr>)). balanced s"
    by (rule domain_loop_balanced) simp
  then show "\<forall>(k, s) \<in> set (generate_log (run w cfg lg)).
         processed s + skipped s = total_to_process s"
    by (simp add: run_def Let_def balanced_def)
qed

subsection \<open>No image is ever written\<close>

lemma convert_rgba_mode: "mode (convert_rgba im) = RGBA"
  by (cases "mode im") (simp_all add: convert_rgba_def)

lemma download_image_mode: "download_image w u = Some im \<Longrightarrow> mode im = RGBA"
  by (auto simp: download_image_def convert_rgba_mode split: option.splits)

lemma paste_mode: "mode (paste w base src pos) = mode base"
  by (simp add: paste_def)

lemma apply_watermark_mode: "apply_watermark w fm wm = Inr r \<Longrightarrow> mode r = mode fm"
  by (auto simp: apply_watermark_def paste_mode split: option.splits if_splits sum.splits)

lemma process_image_mode:
  "process_image w design m c wm = Inr (Some r) \<Longrightarrow> mode r = mode m"
  by (auto simp: process_image_def paste_mode
      split: sum.splits option.splits prod.splits dest!: apply_watermark_mode)

lemma save_jpeg_rgba: "mode im = RGBA \<Longrightarrow> save_jpeg w im = Inl OSError"
  by (simp add: save_jpeg_def)

lemma cache_lookup_rgba: "cache_rgba c \<Longrightarrow> cache_rgba (cache_lookup w cfg n c)"
  unfolding cache_rgba_def cache_lookup_def
  by (auto split: option.splits dest: download_image_mode)

lemma mockup_step_images:
  assumes "cache_rgba (mockup_cache st)" "mockup_step w cfg im iw fn n st = (r, st')"
  shows "images_for_zip st' = images_for_zip st \<and> cache_rgba (mockup_cache st')"
proof -
  let ?c = "cache_lookup w cfg n (mockup_cache st)"
  have c: "cache_rgba ?c" using assms(1) by (rule cache_lookup_rgba)
  have m: "mode mk = RGBA"
    if "?c n = Some d" "(if iw then white_img d else black_img d) = Some mk" for d mk
    using c that unfolding cache_rgba_def by (metis (full_types))
  have s: "save_jpeg w fm = Inl OSError"
    if "?c n = Some d" "(if iw then white_img d else black_img d) = Some mk"
      "process_image w im mk (coords_of d) (watermark_of d) = Inr (Some fm)" for d mk fm
    using m [OF that(1,2)] process_image_mode [OF that(3)] by (simp add: save_jpeg_rgba)
  show ?thesis
    using assms(2) c s
    by (auto simp: mockup_step_def Let_def split: option.splits sum.splits if_splits)
qed

lemma mockup_loop_images:
  assumes "cache_rgba (mockup_cache st)" "mockup_loop w cfg im iw fn ns st = (r, st')"
  shows "images_for_zip st' = images_for_zip st \<and> cache_rgba (mockup_cache st')"
  using assms
proof (induction ns arbitrary: st)
  case Nil
  then show ?case by simp
next
  case (Cons n ns)
  obtain r1 st1 where s: "mockup_step w cfg im iw fn n st = (r1, st1)"
    by (cases "mockup_step w cfg im iw fn n st")
  note i1 = mockup_step_images [OF Cons.prems(1) s]
  show ?case
  proof (cases r1)
    case None
    with Cons.prems s have "mockup_loop w cfg im iw fn ns st1 = (r, st')" by simp
    with Cons.IH [of st1] i1 show ?thesis by simp
  next
    case (Some e)
    with Cons.prems s have "st' = st1" by simp
    with i1 show ?thesis by simp
  qed
qed

lemma try_block_images:
  assumes "cache_rgba (mockup_cache st)" "try_block w cfg r u fn st = (out, st')"
  shows "images_for_zip st' = images_for_zip st \<and> cache_rgba (mockup_cache st')"
  using assms
  by (auto simp: try_block_def Let_def
      split: option.splits sum.splits prod.splits if_splits
      dest: mockup_loop_images)

lemma process_url_images:
  assumes "cache_rgba (mockup_cache st)"
  shows "images_for_zip (process_url w cfg rules u st) = images_for_zip st
       \<and> cache_rgba (mockup_cache (process_url w cfg rules u st))"
proof (cases "match_rule rules (basename u)")
  case None
  then show ?thesis using assms by (simp add: process_url_def)
next
  case (Some r)
  show ?thesis
  proof (cases "action r = Some ''skip''")
    case True
    with Some show ?thesis using assms by (simp add: process_url_def)
  next
    case False
    obtain out st' where t: "try_block w cfg r u (basename u) st = (out, st')"
      by (cases "try_block w cfg r u (basename u) st")
    from try_block_images [OF assms t] show ?thesis using Some False t
      by (cases out) (simp_all add: process_url_def)
  qed
qed

lemma url_loop_images:
  assumes "cache_rgba (mockup_cache st)"
  shows "images_for_zip (url_loop w cfg rules us st) = images_for_zip st"
  using assms
proof (induction us arbitrary: st)
  case Nil
  show ?case by simp
next
  case (Cons u us)
  from process_url_images [OF Cons.prems, of w cfg rules u] Cons.IH
  show ?case by simp
qed

lemma process_domain_images: "images (process_domain w cfg d rules st) = images st"
  by (simp add: process_domain_def Let_def url_loop_images cache_rgba_def split: option.splits)

lemma domain_loop_images: "images (domain_loop w cfg k ds st) = images st"
proof (induction ds arbitrary: k st)
  case Nil
  show ?case by simp
next
  case (Cons a ds)
  obtain d rules where "a = (d, rules)" by (cases a)
  then show ?case using Cons.IH by (simp add: process_domain_images)
qed

lemma run_no_archives: "archives (run w cfg lg) = []"
  by (simp add: run_def Let_def domain_loop_images make_archives_def)

subsection \<open>The example run, step by step\<close>

lemma shop_basename: "basename ''https://cdn/design-1.png'' = ''design-1.png''"
  "basename ''https://cdn/design-2.png'' = ''design-2.png''"
  by (simp_all add: basename_def)

lemma shop_match:
  "match_rule (sort_rules [shop_rule]) ''design-1.png'' = Some shop_rule"
  "match_rule (sort_rules [shop_rule]) ''design-2.png'' = Some shop_rule"
  by (simp_all add: sort_rules_def match_rule_def shop_rule_def sublist_code prefix_code)

lemma shop_download:
  "download_image shop_world (Some ''https://cdn/design-1.png'') = Some (convert_rgba design_image)"
  "download_image shop_world (Some ''https://cdn/design-2.png'') = Some (convert_rgba design_image)"
  "download_image shop_world (Some ''https://cdn/white.png'') = Some (convert_rgba mockup_image)"
  "download_image shop_world (Some ''https://cdn/black.png'') = Some (convert_rgba mockup_image)"
  by (simp_all add: download_image_def shop_world_def)

lemma shop_design_facts:
  "mode (convert_rgba design_image) = RGBA" "width (convert_rgba design_image) = 2"
  "height (convert_rgba design_image) = 1"
  "pix (convert_rgba design_image) (0, 0) = (255, 255, 255, 255)"
  "pix (convert_rgba design_image) (1, 0) = (0, 0, 0, 255)"
  by (simp_all add: convert_rgba_def design_image_def)

lemma shop_getpixel: "getpixel (convert_rgba design_image) (0, 0) = Inr (255, 255, 255, 255)"
  by (simp add: getpixel_def shop_design_facts inside_def)

lemma shop_crop: "crop (convert_rgba design_image) (0, 0, 0 + 2, 0 + 1) = Inr shop_cropped"
  by (simp add: shop_design_facts shop_cropped_def)

lemma shop_cropped_pix:
  "pix shop_cropped (0, 0) = (255, 255, 255, 255)" "pix shop_cropped (1, 0) = (0, 0, 0, 255)"
  by (simp_all add: shop_cropped_def crop_pixels_def shop_design_facts inside_def)

lemma shop_flood:
  "flood 2 1 (255, 255, 255, 255) [(0, 0)] {} (pix shop_cropped)
     = (pix shop_cropped)((0, 0) := clear)"
  by (simp add: flood.simps shop_cropped_pix)

lemma shop_remove_background:
  "remove_background shop_cropped = Inr (shop_cropped\<lparr>pix := (pix shop_cropped)((0, 0) := clear)\<rparr>)"
  using shop_flood
  by (simp add: remove_background_def inside_def shop_cropped_pix) (simp add: shop_cropped_def)


lemma shop_cleared_facts:
  "mode shop_cleared = RGBA" "width shop_cleared = 2" "height shop_cleared = 1"
  "pix shop_cleared (0, 0) = clear" "pix shop_cleared (1, 0) = (0, 0, 0, 255)"
  by (simp_all add: shop_cleared_def shop_cropped_pix) (simp_all add: shop_cropped_def)

lemma shop_getbbox: "getbbox shop_cleared = Some (1, 0, 2, 1)"
  by (simp add: getbbox_def bbox_cols_def bbox_rows_def shop_cleared_facts upto.simps clear_def)

lemma shop_trim: "trim_default shop_cleared = Inr (Some shop_trimmed)"
  by (simp add: trim_default_def get_trimmed_image_with_padding_def shop_getbbox
      shop_cleared_facts shop_trimmed_def)

lemma true_div_2_2: "true_div 2 2 = Inr 1"
  by code_simp

lemma true_div_1_1: "true_div 1 1 = Inr 1"
  by code_simp

lemma int_times_float_2_1: "int_times_float 2 1 = Inr 2"
  by code_simp

lemma int_times_float_1_1: "int_times_float 1 1 = Inr 1"
  by code_simp

lemma shop_fit: "fit_size 2 1 \<lparr>cx = 1, cy = 0, cw = 2, ch = 1\<rparr> = Inr (1, 2, 1)"
  by (simp add: fit_size_def true_div_2_2 true_div_1_1 int_times_float_2_1
      int_times_float_1_1 py_int_def)

lemma shop_process_image:
  "process_image shop_world shop_cropped (convert_rgba mockup_image)
     (Some \<lparr>cx = 1, cy = 0, cw = 2, ch = 1\<rparr>) None = Inr (Some shop_composite)"
proof -
  have r: "remove_background shop_cropped = Inr shop_cleared"
    by (simp add: shop_remove_background shop_cleared_def)
  have z: "resize shop_world shop_trimmed (2, 1) = Inr shop_trimmed"
    by (simp add: resize_def shop_trimmed_def)
  have t: "width shop_trimmed = 2" "height shop_trimmed = 1" by (simp_all add: shop_trimmed_def)
  show ?thesis
    by (simp add: process_image_def r shop_trim t shop_fit z apply_watermark_def shop_composite_def)
qed

lemma shop_save: "save_jpeg shop_world shop_composite = Inl OSError"
  by (simp add: save_jpeg_def shop_composite_def paste_def convert_rgba_mode)


lemma shop_cache_lookup:
  "cache_lookup shop_world shop_config ''A'' Map.empty = [''A'' \<mapsto> shop_entry]"
  "cache_lookup shop_world shop_config ''A'' [''A'' \<mapsto> shop_entry] = [''A'' \<mapsto> shop_entry]"
  by (simp_all add: cache_lookup_def shop_config_def shop_download shop_entry_def)

lemma shop_mockup_step:
  assumes "mockup_cache st = Map.empty \<or> mockup_cache st = [''A'' \<mapsto> shop_entry]"
  shows "mockup_step shop_world shop_config shop_cropped True fn ''A'' st
           = (Some OSError, st\<lparr>mockup_cache := [''A'' \<mapsto> shop_entry]\<rparr>)"
proof -
  have c: "cache_lookup shop_world shop_config ''A'' (mockup_cache st) = [''A'' \<mapsto> shop_entry]"
    using assms shop_cache_lookup by auto
  have e: "white_img shop_entry = Some (convert_rgba mockup_image)"
    "coords_of shop_entry = Some \<lparr>cx = 1, cy = 0, cw = 2, ch = 1\<rparr>"
    "watermark_of shop_entry = None"
    by (simp_all add: shop_entry_def)
  show ?thesis
    by (simp add: mockup_step_def c e shop_process_image shop_save)
qed

lemma shop_try_block:
  assumes "mockup_cache st = Map.empty \<or> mockup_cache st = [''A'' \<mapsto> shop_entry]"
    and "u = ''https://cdn/design-1.png'' \<or> u = ''https://cdn/design-2.png''"
  shows "try_block shop_world shop_config shop_rule u fn st
           = (Raised OSError, st\<lparr>mockup_cache := [''A'' \<mapsto> shop_entry]\<rparr>)"
proof -
  have d: "download_image shop_world (Some u) = Some (convert_rgba design_image)"
    using assms(2) shop_download by auto
  have r: "rcoords shop_rule = Some \<lparr>cx = 0, cy = 0, cw = 2, ch = 1\<rparr>"
    "skipWhite shop_rule = False" "skipBlack shop_rule = False"
    "mockup_sets_to_use shop_rule = [''A'']"
    by (simp_all add: shop_rule_def)
  have c: "crop (convert_rgba design_image) (0, 0, 2, 1) = Inr shop_cropped"
    using shop_crop by simp
  show ?thesis
    by (simp add: try_block_def d r shop_getpixel c shop_mockup_step [OF assms(1)] del: crop.simps)
qed

lemma shop_process_url:
  assumes "mockup_cache st = Map.empty \<or> mockup_cache st = [''A'' \<mapsto> shop_entry]"
    and "u = ''https://cdn/design-1.png'' \<or> u = ''https://cdn/design-2.png''"
  shows "process_url shop_world shop_config (sort_rules [shop_rule]) u st
           = st\<lparr>mockup_cache := [''A'' \<mapsto> shop_entry], skipped_count := skipped_count st + 1\<rparr>"
proof -
  have m: "match_rule (sort_rules [shop_rule]) (basename u) = Some shop_rule"
    using assms(2) shop_basename shop_match by auto
  have a: "action shop_rule = None" by (simp add: shop_rule_def)
  show ?thesis
    by (simp add: process_url_def m a shop_try_block [OF assms])
qed

lemma shop_url_loop:
  "url_loop shop_world shop_config (sort_rules [shop_rule])
     [''https://cdn/design-1.png'', ''https://cdn/design-2.png'']
     \<lparr>images_for_zip = [], mockup_cache = Map.empty, processed_count = 0, skipped_count = 0,
      successfully_processed_this_run = []\<rparr>
   = \<lparr>images_for_zip = [], mockup_cache = [''A'' \<mapsto> shop_entry], processed_count = 0,
      skipped_count = 2, successfully_processed_this_run = []\<rparr>"
  by (simp add: shop_process_url)

lemma shop_window:
  "compute_window 2 [] [''https://cdn/design-1.png'', ''https://cdn/design-2.png'']
     = [''https://cdn/design-1.png'', ''https://cdn/design-2.png'']"
  by (simp add: compute_window_def)

lemma shop_process_domain:
  "process_domain shop_world shop_config ''shop'' [shop_rule]
     \<lparr>processed_log = Map.empty, images = [], urls_summary = []\<rparr>
   = \<lparr>processed_log = Map.empty, images = [],
      urls_summary = [(''shop'', \<lparr>processed = 0, skipped = 2, total_to_process = 2\<rparr>)]\<rparr>"
proof -
  have u: "url_list shop_world ''shop''
             = Some [''https://cdn/design-1.png'', ''https://cdn/design-2.png'']"
    by (simp add: shop_world_def)
  have c: "max_urls_per_domain shop_config = 2" "history_to_keep shop_config = 10"
    by (simp_all add: shop_config_def)
  show ?thesis
    by (simp add: process_domain_def u c log_get_def shop_window shop_url_loop
        update_history_def del: url_loop.simps)
qed

lemma shop_run:
  "run shop_world shop_config Map.empty
     = \<lparr>archives = [], saved_log = Map.empty,
        generate_log = [(''shop'', \<lparr>processed = 0, skipped = 2, total_to_process = 2\<rparr>)]\<rparr>"
proof -
  have d: "domains shop_config = [(''shop'', [shop_rule])]" by (simp add: shop_config_def)
  have g: "\<not> MAX_REPO_SIZE_MB \<le> get_repo_size shop_world 0"
    by (simp add: MAX_REPO_SIZE_MB_def get_repo_size_def shop_world_def)
  show ?thesis
    by (simp add: run_def d g shop_process_domain make_archives_def)
qed

subsection \<open>Fault isolation\<close>




lemma try_block_download_fails:
  "download_image w (Some u) = None \<Longrightarrow> try_block w cfg r u fn st = (Skipped, st)"
  by (simp add: try_block_def)

lemma try_block_getpixel_raises:
  "download_image w (Some u) = Some img \<Longrightarrow> rcoords r = Some c \<Longrightarrow>
   getpixel img (cx c, cy c) = Inl e \<Longrightarrow> try_block w cfg r u fn st = (Raised e, st)"
  by (simp add: try_block_def)

lemma try_block_crop_raises:
  "download_image w (Some u) = Some img \<Longrightarrow> rcoords r = Some c \<Longrightarrow>
   getpixel img (cx c, cy c) = Inr px \<Longrightarrow>
   \<not> ((skipWhite r \<and> is_white_pixel px) \<or> (skipBlack r \<and> \<not> is_white_pixel px)) \<Longrightarrow>
   crop img (cx c, cy c, cx c + cw c, cy c + ch c) = Inl e \<Longrightarrow>
   try_block w cfg r u fn st = (Raised e, st)"
  by (simp add: try_block_def Let_def del: crop.simps)

lemma try_block_mockup_raises:
  "download_image w (Some u) = Some img \<Longrightarrow> rcoords r = Some c \<Longrightarrow>
   getpixel img (cx c, cy c) = Inr px \<Longrightarrow>
   \<not> ((skipWhite r \<and> is_white_pixel px) \<or> (skipBlack r \<and> \<not> is_white_pixel px)) \<Longrightarrow>
   crop img (cx c, cy c, cx c + cw c, cy c + ch c) = Inr cropped \<Longrightarrow>
   mockup_loop w cfg cropped (is_white_pixel px) fn (mockup_sets_to_use r) st = (Some e, st') \<Longrightarrow>
   try_block w cfg r u fn st = (Raised e, st')"
  by (simp add: try_block_def Let_def del: crop.simps)

subsection \<open>The size check\<close>

lemma domain_loop_halts:
  "MAX_REPO_SIZE_MB \<le> get_repo_size w k \<Longrightarrow> domain_loop w cfg k ds st = st"
proof (cases ds)
  case Nil
  then show ?thesis by simp
next
  case (Cons a rest)
  assume "MAX_REPO_SIZE_MB \<le> get_repo_size w k"
  then show ?thesis using Cons by (cases a) simp
qed

lemma domain_loop_append_halt:
  "MAX_REPO_SIZE_MB \<le> get_repo_size w (k + length pre) \<Longrightarrow>
   domain_loop w cfg k (pre @ ds) st = domain_loop w cfg k pre st"
proof (induction pre arbitrary: k st)
  case Nil
  then show ?case by (simp add: domain_loop_halts)
next
  case (Cons a pre)
  obtain d rules where a: "a = (d, rules)" by (cases a)
  from Cons.prems have "MAX_REPO_SIZE_MB \<le> get_repo_size w (Suc k + length pre)" by simp
  from Cons.IH [OF this] show ?case by (simp add: a)
qed

lemma process_domain_log_other:
  "d' \<noteq> d \<Longrightarrow> processed_log (process_domain w cfg d rules st) d' = processed_log st d'"
  by (simp add: process_domain_def Let_def update_history_other split: option.splits)

lemma process_domain_summary_keys:
  "fst ` set (urls_summary (process_domain w cfg d rules st))
     \<subseteq> insert d (fst ` set (urls_summary st))"
  by (auto simp: process_domain_def Let_def dict_set_keys split: option.splits)

lemma domain_loop_log_other:
  "d' \<notin> fst ` set ds \<Longrightarrow>
   processed_log (domain_loop w cfg k ds st) d' = processed_log st d'"
proof (induction ds arbitrary: k st)
  case Nil
  show ?case by simp
next
  case (Cons a ds)
  obtain d rules where a: "a = (d, rules)" by (cases a)
  with Cons.prems have "d' \<noteq> d" "d' \<notin> fst ` set ds" by auto
  then show ?case using Cons.IH by (simp add: a process_domain_log_other)
qed

lemma domain_loop_summary_keys:
  "fst ` set (urls_summary (domain_loop w cfg k ds st))
     \<subseteq> fst ` set ds \<union> fst ` set (urls_summary st)"
proof (induction ds arbitrary: k st)
  case Nil
  show ?case by simp
next
  case (Cons a ds)
  obtain d rules where a: "a = (d, rules)" by (cases a)
  show ?case
    using Cons.IH [of "Suc k" "process_domain w cfg d rules st"]
      process_domain_summary_keys [of w cfg d rules st]
    by (auto simp: a)
qed

text \<open>
  Claim C9.  The size of the repository is compared with the ceiling of 900 MB at the
  head of every round of the domain loop.  If the ceiling is reached when the loop comes
  to a domain, the loop ends there: the run is the run over the domains before it, and
  for that domain and every later one the saved history is the loaded one and no summary
  is recorded.
\<close>

theorem circuit_breaker:
  assumes "domains cfg = pre @ rest"
    and "MAX_REPO_SIZE_MB \<le> get_repo_size w (length pre)"
    and "distinct (map fst (domains cfg))"
  shows "domain_loop w cfg 0 (domains cfg) st = domain_loop w cfg 0 pre st
       \<and> (\<forall>d \<in> fst ` set rest.
             saved_log (run w cfg lg) d = lg d
             \<and> d \<notin> fst ` set (generate_log (run w cfg lg)))"
proof (intro conjI ballI)
  show h: "domain_loop w cfg 0 (domains cfg) st = domain_loop w cfg 0 pre st" for st
    using assms(1,2) by (simp add: domain_loop_append_halt)
  fix d assume d: "d \<in> fst ` set rest"
  with assms(1,3) have n: "d \<notin> fst ` set pre" by auto
  let ?st0 = "\<lparr>processed_log = lg, images = [], urls_summary = []\<rparr>"
  show "saved_log (run w cfg lg) d = lg d"
    using domain_loop_log_other [OF n, of w cfg 0 ?st0] by (simp add: run_def Let_def h)
  show "d \<notin> fst ` set (generate_log (run w cfg lg))"
    using domain_loop_summary_keys [of w cfg 0 pre ?st0] n
    by (auto simp: run_def Let_def h)
qed

theorem circuit_breaker_witness:
  "domains shop_config = [] @ [(''shop'', [shop_rule])]
   \<and> MAX_REPO_SIZE_MB \<le> get_repo_size full_world (length ([] :: (domain \<times> rule list) list))
   \<and> distinct (map fst (domains shop_config))
   \<and> saved_log (run full_world shop_config [''shop'' \<mapsto> [''https://cdn/old.png'']]) ''shop''
       = Some [''https://cdn/old.png'']
   \<and> ''shop'' \<notin> fst ` set (generate_log
         (run full_world shop_config [''shop'' \<mapsto> [''https://cdn/old.png'']]))"
proof -
  have a: "domains shop_config = [] @ [(''shop'', [shop_rule])]"
    by (simp add: shop_config_def)
  have b: "MAX_REPO_SIZE_MB \<le> get_repo_size full_world (length ([] :: (domain \<times> rule list) list))"
    by (simp add: MAX_REPO_SIZE_MB_def get_repo_size_def full_world_def)
  have c: "distinct (map fst (domains shop_config))"
    by (simp add: shop_config_def)
  from circuit_breaker [OF a b c, of _ "[''shop'' \<mapsto> [''https://cdn/old.png'']]"] a b c
  show ?thesis by simp
qed

subsection \<open>The end-to-end run\<close>

theorem counters_partition_window_witness:
  "url_list shop_world ''shop''
     = Some [''https://cdn/design-1.png'', ''https://cdn/design-2.png'']
   \<and> compute_window (max_urls_per_domain shop_config)
         (log_get (processed_log \<lparr>processed_log = Map.empty, images = [], urls_summary = []\<rparr>)
            ''shop'')
         [''https://cdn/design-1.png'', ''https://cdn/design-2.png''] \<noteq> []
   \<and> (\<exists>s. map_of (urls_summary (process_domain shop_world shop_config ''shop'' [shop_rule]
                \<lparr>processed_log = Map.empty, images = [], urls_summary = []\<rparr>)) ''shop'' = Some s
          \<and> total_to_process s = 2 \<and> processed s + skipped s = 2)"
proof -
  let ?ms = "\<lparr>processed_log = Map.empty, images = [], urls_summary = []\<rparr>"
  have u: "url_list shop_world ''shop''
     = Some [''https://cdn/design-1.png'', ''https://cdn/design-2.png'']"
    by (simp add: shop_world_def)
  have c: "compute_window (max_urls_per_domain shop_config) (log_get (processed_log ?ms) ''shop'')
         [''https://cdn/design-1.png'', ''https://cdn/design-2.png'']
       = [''https://cdn/design-1.png'', ''https://cdn/design-2.png'']"
    by (simp add: shop_config_def log_get_def shop_window)
  note t = counters_partition_window [where w = shop_world and cfg = shop_config
      and d = "''shop''" and ms = ?ms and rules = "[shop_rule]",
      THEN conjunct2, THEN conjunct1, THEN spec, THEN mp]
  have n: "compute_window (max_urls_per_domain shop_config) (log_get (processed_log ?ms) ''shop'')
         [''https://cdn/design-1.png'', ''https://cdn/design-2.png''] \<noteq> []"
    unfolding c by simp
  from t [OF conjI [OF u n]]
  have "\<exists>s. map_of (urls_summary (process_domain shop_world shop_config ''shop'' [shop_rule] ?ms))
              ''shop'' = Some s
          \<and> total_to_process s = length [''https://cdn/design-1.png'', ''https://cdn/design-2.png'']
          \<and> processed s + skipped s = total_to_process s"
    unfolding c .
  then show ?thesis using u n by auto
qed

text \<open>
  Claim C1, on the code.  In the example run the domain has the cap 2 and no history, the
  fetched list is two URLs, both match a rule with crop coordinates and no skip flag, and
  for both the compositing into the mockup set A returns an image.  The image is the RGBA
  composite, which line 343 hands to the JPEG writer in place of the RGB copy made on
  line 342; the writer raises, the handler of line 352 counts the URL as skipped, and the
  run writes no archive and leaves the history of the domain empty.
\<close>

theorem end_to_end_run_writes_nothing:
  "max_urls_per_domain shop_config = 2
   \<and> url_list shop_world ''shop''
       = Some [''https://cdn/design-1.png'', ''https://cdn/design-2.png'']
   \<and> match_rule (sort_rules [shop_rule]) (basename ''https://cdn/design-1.png'') = Some shop_rule
   \<and> match_rule (sort_rules [shop_rule]) (basename ''https://cdn/design-2.png'') = Some shop_rule
   \<and> mockup_sets_to_use shop_rule = [''A'']
   \<and> process_image shop_world shop_cropped (convert_rgba mockup_image)
        (Some \<lparr>cx = 1, cy = 0, cw = 2, ch = 1\<rparr>) None = Inr (Some shop_composite)
   \<and> mode shop_composite = RGBA
   \<and> save_jpeg shop_world shop_composite = Inl OSError
   \<and> run shop_world shop_config Map.empty
       = \<lparr>archives = [], saved_log = Map.empty,
          generate_log = [(''shop'', \<lparr>processed = 0, skipped = 2, total_to_process = 2\<rparr>)]\<rparr>"
proof (intro conjI)
  show "max_urls_per_domain shop_config = 2" by (simp add: shop_config_def)
  show "url_list shop_world ''shop''
       = Some [''https://cdn/design-1.png'', ''https://cdn/design-2.png'']"
    by (simp add: shop_world_def)
  show "match_rule (sort_rules [shop_rule]) (basename ''https://cdn/design-1.png'') = Some shop_rule"
    by (simp add: shop_basename shop_match)
  show "match_rule (sort_rules [shop_rule]) (basename ''https://cdn/design-2.png'') = Some shop_rule"
    by (simp add: shop_basename shop_match)
  show "mockup_sets_to_use shop_rule = [''A'']" by (simp add: shop_rule_def)
  show "process_image shop_world shop_cropped (convert_rgba mockup_image)
        (Some \<lparr>cx = 1, cy = 0, cw = 2, ch = 1\<rparr>) None = Inr (Some shop_composite)"
    by (rule shop_process_image)
  show "mode shop_composite = RGBA"
    by (simp add: shop_composite_def paste_mode convert_rgba_mode)
  show "save_jpeg shop_world shop_composite = Inl OSError" by (rule shop_save)
  show "run shop_world shop_config Map.empty
       = \<lparr>archives = [], saved_log = Map.empty,
          generate_log = [(''shop'', \<lparr>processed = 0, skipped = 2, total_to_process = 2\<rparr>)]\<rparr>"
    by (rule shop_run)
qed

subsection \<open>What a domain's round stores\<close>

lemma process_url_succ:
  "successfully_processed_this_run (process_url w cfg R u st)
     = successfully_processed_this_run st @ (if url_completes w cfg R u st then [u] else [])"
proof (cases "match_rule R (basename u)")
  case None
  then show ?thesis by (simp add: process_url_def url_completes_def)
next
  case (Some r)
  show ?thesis
  proof (cases "action r = Some ''skip''")
    case True
    with Some show ?thesis by (simp add: process_url_def url_completes_def)
  next
    case False
    obtain out st' where t: "try_block w cfg r u (basename u) st = (out, st')"
      by (cases "try_block w cfg r u (basename u) st")
    then have "same_counters st st'" by (rule try_block_counters)
    then show ?thesis using Some False t
      by (cases out) (simp_all add: process_url_def url_completes_def same_counters_def)
  qed
qed

lemma url_loop_succ:
  "successfully_processed_this_run (url_loop w cfg R us st)
     = successfully_processed_this_run st @ completed w cfg R us st"
  by (induction us arbitrary: st) (simp_all add: process_url_succ)

lemma completed_subseq: "subseq (completed w cfg R us st) us"
  by (induction us arbitrary: st) auto

lemma process_domain_log:
  assumes "url_list w d = Some all_urls"
  shows "processed_log (process_domain w cfg d rules st)
     = update_history (history_to_keep cfg) d
         (completed w cfg (sort_rules rules)
            (compute_window (max_urls_per_domain cfg) (log_get (processed_log st) d) all_urls)
            (start_state st))
         (processed_log st)"
proof -
  let ?win = "compute_window (max_urls_per_domain cfg) (log_get (processed_log st) d) all_urls"
  show ?thesis
  proof (cases "?win = []")
    case True
    then show ?thesis using assms by (simp add: process_domain_def update_history_def)
  next
    case False
    have "successfully_processed_this_run
            (url_loop w cfg (sort_rules rules) ?win (start_state st))
          = completed w cfg (sort_rules rules) ?win (start_state st)"
      by (simp add: url_loop_succ start_state_def)
    then show ?thesis using assms False
      by (simp add: process_domain_def Let_def start_state_def)
  qed
qed

lemma domain_loop_reach:
  assumes "\<forall>i \<le> length pre. \<not> MAX_REPO_SIZE_MB \<le> get_repo_size w (k + i)"
  shows "domain_loop w cfg k (pre @ (d, rules) # rest) st
     = domain_loop w cfg (Suc (k + length pre)) rest
         (process_domain w cfg d rules (domain_loop w cfg k pre st))"
  using assms
proof (induction pre arbitrary: k st)
  case Nil
  then show ?case by simp
next
  case (Cons a pre)
  obtain d' rules' where a: "a = (d', rules')" by (cases a)
  have k0: "\<not> MAX_REPO_SIZE_MB \<le> get_repo_size w k" using Cons.prems by force
  have "\<forall>i \<le> length pre. \<not> MAX_REPO_SIZE_MB \<le> get_repo_size w (Suc k + i)"
  proof (intro allI impI)
    fix i assume "i \<le> length pre"
    then have "Suc i \<le> length (a # pre)" by simp
    with Cons.prems have "\<not> MAX_REPO_SIZE_MB \<le> get_repo_size w (k + Suc i)" by blast
    then show "\<not> MAX_REPO_SIZE_MB \<le> get_repo_size w (Suc k + i)" by simp
  qed
  from Cons.IH [OF this] k0 show ?case by (simp add: a)
qed

lemma run_saved_log:
  assumes dom: "domains cfg = pre @ (d, rules) # rest"
    and dist: "distinct (map fst (domains cfg))"
    and reach: "\<forall>i \<le> length pre. \<not> MAX_REPO_SIZE_MB \<le> get_repo_size w i"
  shows "saved_log (run w cfg lg) d
           = processed_log (process_domain w cfg d rules (state_after w cfg pre lg)) d"
    and "processed_log (state_after w cfg pre lg) d = lg d"
proof -
  let ?st0 = "\<lparr>processed_log = lg, images = [], urls_summary = []\<rparr>"
  have npre: "d \<notin> fst ` set pre" and nrest: "d \<notin> fst ` set rest"
    using dom dist by auto
  have "domain_loop w cfg 0 (domains cfg) ?st0
          = domain_loop w cfg (Suc (length pre)) rest
              (process_domain w cfg d rules (state_after w cfg pre lg))"
    using domain_loop_reach [of pre w 0 cfg d rules rest ?st0] reach
    by (simp add: dom state_after_def)
  then show "saved_log (run w cfg lg) d
           = processed_log (process_domain w cfg d rules (state_after w cfg pre lg)) d"
    by (simp add: run_def Let_def domain_loop_log_other [OF nrest])
  show "processed_log (state_after w cfg pre lg) d = lg d"
    by (simp add: state_after_def domain_loop_log_other [OF npre])
qed

subsection \<open>The run over two domains, step by step\<close>

lemma design_process_image:
  "process_image w shop_cropped (convert_rgba mockup_image)
     (Some \<lparr>cx = 1, cy = 0, cw = 2, ch = 1\<rparr>) None
   = Inr (Some (paste w (convert_rgba mockup_image) shop_trimmed
                  (paste_position \<lparr>cx = 1, cy = 0, cw = 2, ch = 1\<rparr> 2)))"
proof -
  have r: "remove_background shop_cropped = Inr shop_cleared"
    by (simp add: shop_remove_background shop_cleared_def)
  have z: "resize w shop_trimmed (2, 1) = Inr shop_trimmed"
    by (simp add: resize_def shop_trimmed_def)
  have t: "width shop_trimmed = 2" "height shop_trimmed = 1" by (simp_all add: shop_trimmed_def)
  show ?thesis
    by (simp add: process_image_def r shop_trim t shop_fit z apply_watermark_def)
qed

lemma design_save:
  "save_jpeg w (paste w (convert_rgba mockup_image) shop_trimmed pos) = Inl OSError"
  by (simp add: save_jpeg_rgba paste_mode convert_rgba_mode)

lemma mixed_sort:
  "sort_rules [plain_rule, shop_rule] = [shop_rule, plain_rule]"
  "sort_rules [plain_rule] = [plain_rule]"
  by (simp_all add: sort_rules_def plain_rule_def shop_rule_def)

lemma mixed_basename:
  "basename ''https://cdn/plain-2.png'' = ''plain-2.png''"
  "basename ''https://cdn/plain-3.png'' = ''plain-3.png''"
  "basename ''https://cdn/plain-4.png'' = ''plain-4.png''"
  by (simp_all add: basename_def)

lemma mixed_match:
  "match_rule [shop_rule, plain_rule] ''design-1.png'' = Some shop_rule"
  "match_rule [shop_rule, plain_rule] ''plain-2.png'' = Some plain_rule"
  "match_rule [plain_rule] ''plain-3.png'' = Some plain_rule"
  "match_rule [plain_rule] ''plain-4.png'' = Some plain_rule"
  by (simp_all add: match_rule_def shop_rule_def plain_rule_def sublist_code prefix_code)

lemma mixed_download:
  "download_image mixed_world (Some ''https://cdn/design-1.png'') = Some (convert_rgba design_image)"
  "download_image mixed_world (Some ''https://cdn/plain-2.png'') = Some (convert_rgba design_image)"
  "download_image mixed_world (Some ''https://cdn/plain-3.png'') = Some (convert_rgba design_image)"
  "download_image mixed_world (Some ''https://cdn/plain-4.png'') = Some (convert_rgba design_image)"
  "download_image mixed_world (Some ''https://cdn/white.png'') = Some (convert_rgba mockup_image)"
  "download_image mixed_world (Some ''https://cdn/black.png'') = Some (convert_rgba mockup_image)"
  by (simp_all add: download_image_def mixed_world_def)

lemma mixed_cache_lookup:
  "cache_lookup mixed_world (mixed_config k) ''A'' Map.empty = [''A'' \<mapsto> shop_entry]"
  by (simp add: cache_lookup_def mixed_config_def mixed_download shop_entry_def)

lemma mixed_try_design:
  assumes "mockup_cache st = Map.empty"
  shows "try_block mixed_world (mixed_config k) shop_rule ''https://cdn/design-1.png'' fn st
           = (Raised OSError, st\<lparr>mockup_cache := [''A'' \<mapsto> shop_entry]\<rparr>)"
proof -
  have r: "rcoords shop_rule = Some \<lparr>cx = 0, cy = 0, cw = 2, ch = 1\<rparr>"
    "skipWhite shop_rule = False" "skipBlack shop_rule = False"
    "mockup_sets_to_use shop_rule = [''A'']"
    by (simp_all add: shop_rule_def)
  have c: "crop (convert_rgba design_image) (0, 0, 2, 1) = Inr shop_cropped"
    using shop_crop by simp
  have e: "white_img shop_entry = Some (convert_rgba mockup_image)"
    "coords_of shop_entry = Some \<lparr>cx = 1, cy = 0, cw = 2, ch = 1\<rparr>"
    "watermark_of shop_entry = None"
    by (simp_all add: shop_entry_def)
  have m: "mockup_step mixed_world (mixed_config k) shop_cropped True fn ''A'' st
             = (Some OSError, st\<lparr>mockup_cache := [''A'' \<mapsto> shop_entry]\<rparr>)"
    by (simp add: mockup_step_def assms mixed_cache_lookup e design_process_image design_save)
  show ?thesis
    by (simp add: try_block_def mixed_download r shop_getpixel c m del: crop.simps)
qed

lemma mixed_try_plain:
  assumes "u = ''https://cdn/plain-2.png'' \<or> u = ''https://cdn/plain-3.png''
             \<or> u = ''https://cdn/plain-4.png''"
  shows "try_block mixed_world (mixed_config k) plain_rule u fn st = (Processed, st)"
proof -
  have d: "download_image mixed_world (Some u) = Some (convert_rgba design_image)"
    using assms mixed_download by auto
  have r: "rcoords plain_rule = Some \<lparr>cx = 0, cy = 0, cw = 2, ch = 1\<rparr>"
    "skipWhite plain_rule = False" "skipBlack plain_rule = False"
    "mockup_sets_to_use plain_rule = []"
    by (simp_all add: plain_rule_def)
  have c: "crop (convert_rgba design_image) (0, 0, 2, 1) = Inr shop_cropped"
    using shop_crop by simp
  show ?thesis
    by (simp add: try_block_def d r shop_getpixel c del: crop.simps)
qed

lemma mixed_rule_actions: "action shop_rule = None" "action plain_rule = None"
  by (simp_all add: shop_rule_def plain_rule_def)

lemma mixed_url_design:
  assumes "mockup_cache st = Map.empty"
  shows "process_url mixed_world (mixed_config k) [shop_rule, plain_rule]
           ''https://cdn/design-1.png'' st
         = st\<lparr>mockup_cache := [''A'' \<mapsto> shop_entry], skipped_count := skipped_count st + 1\<rparr>"
    and "\<not> url_completes mixed_world (mixed_config k) [shop_rule, plain_rule]
           ''https://cdn/design-1.png'' st"
  by (simp_all add: process_url_def url_completes_def shop_basename mixed_match
      mixed_rule_actions mixed_try_design [OF assms])

lemma mixed_url_plain2:
  shows "process_url mixed_world (mixed_config k) [shop_rule, plain_rule]
           ''https://cdn/plain-2.png'' st
         = st\<lparr>successfully_processed_this_run :=
                 successfully_processed_this_run st @ [''https://cdn/plain-2.png''],
               processed_count := processed_count st + 1\<rparr>"
    and "url_completes mixed_world (mixed_config k) [shop_rule, plain_rule]
           ''https://cdn/plain-2.png'' st"
  by (simp_all add: process_url_def url_completes_def mixed_basename mixed_match
      mixed_rule_actions mixed_try_plain)

lemma mixed_url_plain34:
  assumes "u = ''https://cdn/plain-3.png'' \<or> u = ''https://cdn/plain-4.png''"
  shows "process_url mixed_world (mixed_config k) [plain_rule] u st
         = st\<lparr>successfully_processed_this_run := successfully_processed_this_run st @ [u],
               processed_count := processed_count st + 1\<rparr>"
    and "url_completes mixed_world (mixed_config k) [plain_rule] u st"
proof -
  have m: "match_rule [plain_rule] (basename u) = Some plain_rule"
    using assms mixed_basename mixed_match by auto
  have t: "try_block mixed_world (mixed_config k) plain_rule u (basename u) st = (Processed, st)"
    using assms by (intro mixed_try_plain) auto
  show "process_url mixed_world (mixed_config k) [plain_rule] u st
         = st\<lparr>successfully_processed_this_run := successfully_processed_this_run st @ [u],
               processed_count := processed_count st + 1\<rparr>"
    by (simp add: process_url_def m t mixed_rule_actions)
  show "url_completes mixed_world (mixed_config k) [plain_rule] u st"
    by (simp add: url_completes_def m t mixed_rule_actions)
qed

lemma mixed_completed_shop:
  "completed mixed_world (mixed_config k) (sort_rules [plain_rule, shop_rule])
     [''https://cdn/design-1.png'', ''https://cdn/plain-2.png''] (start_state ms)
   = [''https://cdn/plain-2.png'']"
  by (simp add: mixed_sort mixed_url_design mixed_url_plain2 start_state_def)

lemma mixed_completed_store:
  "completed mixed_world (mixed_config k) (sort_rules [plain_rule])
     [''https://cdn/plain-3.png'', ''https://cdn/plain-4.png''] st
   = [''https://cdn/plain-3.png'', ''https://cdn/plain-4.png'']"
  by (simp add: mixed_sort mixed_url_plain34)

lemma mixed_loop_shop:
  "url_loop mixed_world (mixed_config k) (sort_rules [plain_rule, shop_rule])
     [''https://cdn/design-1.png'', ''https://cdn/plain-2.png'']
     \<lparr>images_for_zip = [], mockup_cache = Map.empty, processed_count = 0, skipped_count = 0,
      successfully_processed_this_run = []\<rparr>
   = \<lparr>images_for_zip = [], mockup_cache = [''A'' \<mapsto> shop_entry], processed_count = 1,
      skipped_count = 1, successfully_processed_this_run = [''https://cdn/plain-2.png'']\<rparr>"
  by (simp add: mixed_sort mixed_url_design mixed_url_plain2)

lemma mixed_loop_store:
  "url_loop mixed_world (mixed_config k) (sort_rules [plain_rule])
     [''https://cdn/plain-3.png'', ''https://cdn/plain-4.png'']
     \<lparr>images_for_zip = [], mockup_cache = Map.empty, processed_count = 0, skipped_count = 0,
      successfully_processed_this_run = []\<rparr>
   = \<lparr>images_for_zip = [], mockup_cache = Map.empty, processed_count = 2,
      skipped_count = 0,
      successfully_processed_this_run = [''https://cdn/plain-3.png'', ''https://cdn/plain-4.png'']\<rparr>"
  by (simp add: mixed_sort mixed_url_plain34)

subsection \<open>History retention\<close>

lemma mixed_reach: "\<not> MAX_REPO_SIZE_MB \<le> get_repo_size mixed_world i"
  by (simp add: MAX_REPO_SIZE_MB_def get_repo_size_def mixed_world_def)

lemma mixed_domains:
  "domains (mixed_config k)
     = [(''shop'', [plain_rule, shop_rule])] @ (''store'', [plain_rule]) # []"
  "domains (mixed_config k) = [] @ (''shop'', [plain_rule, shop_rule]) # [(''store'', [plain_rule])]"
  "distinct (map fst (domains (mixed_config k)))"
  "max_urls_per_domain (mixed_config k) = 2" "history_to_keep (mixed_config k) = k"
  by (simp_all add: mixed_config_def)

lemma mixed_lists:
  "url_list mixed_world ''shop'' = Some [''https://cdn/design-1.png'', ''https://cdn/plain-2.png'']"
  "url_list mixed_world ''store'' = Some [''https://cdn/plain-3.png'', ''https://cdn/plain-4.png'']"
  by (simp_all add: mixed_world_def)

lemma mixed_saved_store:
  "saved_log (run mixed_world (mixed_config k) mixed_log) ''store''
     = Some (slice_to k [''https://cdn/plain-3.png'', ''https://cdn/plain-4.png'',
                         ''https://cdn/old-1.png'', ''https://cdn/old-2.png''])"
proof -
  let ?pre = "[(''shop'', [plain_rule, shop_rule])]"
  let ?ms = "state_after mixed_world (mixed_config k) ?pre mixed_log"
  have r: "\<forall>i \<le> length ?pre. \<not> MAX_REPO_SIZE_MB \<le> get_repo_size mixed_world i"
    by (simp add: mixed_reach)
  note s = run_saved_log [OF mixed_domains(1) mixed_domains(3) r, where lg = mixed_log]
  have "processed_log ?ms ''store'' = mixed_log ''store''" by (rule s(2))
  then have old: "log_get (processed_log ?ms) ''store''
               = [''https://cdn/old-1.png'', ''https://cdn/old-2.png'']"
    by (simp add: log_get_def mixed_log_def)
  have win: "compute_window 2 [''https://cdn/old-1.png'', ''https://cdn/old-2.png'']
               [''https://cdn/plain-3.png'', ''https://cdn/plain-4.png'']
             = [''https://cdn/plain-3.png'', ''https://cdn/plain-4.png'']"
    by (simp add: compute_window_def)
  show ?thesis
    unfolding s(1) process_domain_log [OF mixed_lists(2)] mixed_domains(4,5) old win
      mixed_completed_store
    by (simp add: update_history_def old)
qed

lemma shop_long_run:
  "saved_log (run shop_world shop_config long_log) ''shop''
     = Some (replicate 11 ''https://cdn/old.png'')"
proof -
  have d: "domains shop_config = [(''shop'', [shop_rule])]" by (simp add: shop_config_def)
  have g: "\<not> MAX_REPO_SIZE_MB \<le> get_repo_size shop_world 0"
    by (simp add: MAX_REPO_SIZE_MB_def get_repo_size_def shop_world_def)
  have u: "url_list shop_world ''shop''
             = Some [''https://cdn/design-1.png'', ''https://cdn/design-2.png'']"
    by (simp add: shop_world_def)
  have c: "max_urls_per_domain shop_config = 2" by (simp add: shop_config_def)
  have l: "log_get long_log ''shop'' = replicate 11 ''https://cdn/old.png''"
    by (simp add: long_log_def log_get_def)
  have win: "compute_window 2 (replicate 11 ''https://cdn/old.png'')
               [''https://cdn/design-1.png'', ''https://cdn/design-2.png'']
             = [''https://cdn/design-1.png'', ''https://cdn/design-2.png'']"
    by (simp add: compute_window_eq)
  have p: "process_domain shop_world shop_config ''shop'' [shop_rule]
             \<lparr>processed_log = long_log, images = [], urls_summary = []\<rparr>
           = \<lparr>processed_log = long_log, images = [],
              urls_summary = [(''shop'', \<lparr>processed = 0, skipped = 2, total_to_process = 2\<rparr>)]\<rparr>"
    by (simp add: process_domain_def u c l win shop_url_loop update_history_def
        del: url_loop.simps)
  show ?thesis
    by (simp add: run_def d g p) (simp add: long_log_def)
qed

text \<open>
  Claim C4, where it fails.  In the first example run with a loaded history of eleven
  entries and a retention length of ten no URL completes, so line 359 skips the update and
  the eleven entries are saved.  In the run over two domains with a retention length of
  \<open>-1\<close> the update of the second domain stores three entries.
\<close>

theorem history_retention_counterexample:
  "history_to_keep shop_config = 10
   \<and> \<not> int (length (log_get (saved_log (run shop_world shop_config long_log)) ''shop''))
         \<le> history_to_keep shop_config
   \<and> history_to_keep (mixed_config (- 1)) = - 1
   \<and> log_get (saved_log (run mixed_world (mixed_config (- 1)) mixed_log)) ''store''
       = [''https://cdn/plain-3.png'', ''https://cdn/plain-4.png'', ''https://cdn/old-1.png'']
   \<and> \<not> int (length (log_get (saved_log (run mixed_world (mixed_config (- 1)) mixed_log))
                          ''store''))
         \<le> history_to_keep (mixed_config (- 1))"
proof -
  have k: "history_to_keep shop_config = 10" by (simp add: shop_config_def)
  have a: "log_get (saved_log (run shop_world shop_config long_log)) ''shop''
             = replicate 11 ''https://cdn/old.png''"
    by (simp add: log_get_def shop_long_run)
  have b: "log_get (saved_log (run mixed_world (mixed_config (- 1)) mixed_log)) ''store''
       = [''https://cdn/plain-3.png'', ''https://cdn/plain-4.png'', ''https://cdn/old-1.png'']"
    by (simp add: log_get_def mixed_saved_store slice_to_def)
  show ?thesis unfolding a b k mixed_domains(5) by simp
qed

text \<open>
  Claim C4, amended.  Take a domain that the domain loop reaches, whose list was fetched,
  in a run with a retention length of at least zero.  The new URLs are those of its
  window whose rounds complete, in the order of the window: they are the list
  \<open>successfully_processed_this_run\<close> at the end of the URL loop, and none of them is in the
  loaded history.  If there is one, the saved list of the domain is the new URLs followed
  by the loaded list, cut to the retention length, and so has at most that many entries.
  If there is none, the saved list is the loaded one.
\<close>

theorem history_retention:
  assumes "domains cfg = pre @ (d, rules) # rest"
    and "distinct (map fst (domains cfg))"
    and "\<forall>i \<le> length pre. \<not> MAX_REPO_SIZE_MB \<le> get_repo_size w i"
    and "url_list w d = Some all_urls"
    and "0 \<le> history_to_keep cfg"
  shows "let window = compute_window (max_urls_per_domain cfg) (log_get lg d) all_urls;
             new = completed w cfg (sort_rules rules) window
                     (start_state (state_after w cfg pre lg));
             stored = log_get (saved_log (run w cfg lg)) d
         in successfully_processed_this_run
              (url_loop w cfg (sort_rules rules) window (start_state (state_after w cfg pre lg)))
              = new
          \<and> subseq new window
          \<and> set new \<inter> set (log_get lg d) = {}
          \<and> (new \<noteq> [] \<longrightarrow>
                stored = take (nat (history_to_keep cfg)) new
                           @ take (nat (history_to_keep cfg) - length new) (log_get lg d)
                \<and> int (length stored) \<le> history_to_keep cfg)
          \<and> (new = [] \<longrightarrow> saved_log (run w cfg lg) d = lg d)"
proof -
  define ms where "ms = state_after w cfg pre lg"
  define window where "window = compute_window (max_urls_per_domain cfg) (log_get lg d) all_urls"
  define new where "new = completed w cfg (sort_rules rules) window (start_state ms)"
  note s = run_saved_log [OF assms(1,2,3), where lg = lg]
  have old: "log_get (processed_log ms) d = log_get lg d"
    by (simp add: log_get_def ms_def s(2))
  have saved: "saved_log (run w cfg lg) d
                 = update_history (history_to_keep cfg) d new (processed_log ms) d"
    unfolding s(1) ms_def [symmetric] process_domain_log [OF assms(4)] old new_def window_def ..
  have tie: "successfully_processed_this_run
               (url_loop w cfg (sort_rules rules) window (start_state ms)) = new"
    unfolding new_def url_loop_succ by (simp add: start_state_def)
  have sub: "subseq new window" unfolding new_def by (rule completed_subseq)
  have "set window \<inter> set (log_get lg d) = {}"
  proof -
    have "set window \<subseteq> set (takeWhile (\<lambda>u. u \<notin> set (log_get lg d)) all_urls)"
      unfolding window_def compute_window_eq by (rule set_take_subset)
    then show ?thesis by (auto dest: set_takeWhileD)
  qed
  moreover have "set new \<subseteq> set window" using sub by (auto dest: list_emb_set)
  ultimately have fresh: "set new \<inter> set (log_get lg d) = {}" by blast
  have upd: "log_get (saved_log (run w cfg lg)) d
       = take (nat (history_to_keep cfg)) new
           @ take (nat (history_to_keep cfg) - length new) (log_get lg d)"
    if "new \<noteq> []"
  proof -
    have "saved_log (run w cfg lg) d
            = Some (slice_to (history_to_keep cfg) (new @ log_get (processed_log ms) d))"
      using that by (simp add: saved update_history_def)
    then have "log_get (saved_log (run w cfg lg)) d
            = slice_to (history_to_keep cfg) (new @ log_get lg d)"
      by (simp add: log_get_def [of "saved_log (run w cfg lg)"] old)
    then show ?thesis using assms(5) by (simp add: slice_to_nonneg)
  qed
  have len: "new \<noteq> [] \<Longrightarrow>
     int (length (log_get (saved_log (run w cfg lg)) d)) \<le> history_to_keep cfg"
    using assms(5) by (simp add: upd)
  have none: "new = [] \<Longrightarrow> saved_log (run w cfg lg) d = lg d"
    by (simp add: saved update_history_def ms_def s(2))
  show ?thesis
    unfolding Let_def window_def [symmetric] ms_def [symmetric] new_def [symmetric]
    using tie sub fresh upd len none by blast
qed

theorem history_retention_witness:
  "domains (mixed_config 3)
     = [(''shop'', [plain_rule, shop_rule])] @ (''store'', [plain_rule]) # []
   \<and> distinct (map fst (domains (mixed_config 3)))
   \<and> \<not> MAX_REPO_SIZE_MB \<le> get_repo_size mixed_world 0
   \<and> \<not> MAX_REPO_SIZE_MB \<le> get_repo_size mixed_world 1
   \<and> url_list mixed_world ''store''
       = Some [''https://cdn/plain-3.png'', ''https://cdn/plain-4.png'']
   \<and> 0 \<le> history_to_keep (mixed_config 3)
   \<and> completed mixed_world (mixed_config 3) (sort_rules [plain_rule])
        (compute_window (max_urls_per_domain (mixed_config 3)) (log_get mixed_log ''store'')
           [''https://cdn/plain-3.png'', ''https://cdn/plain-4.png''])
        (start_state (state_after mixed_world (mixed_config 3)
                        [(''shop'', [plain_rule, shop_rule])] mixed_log))
       = [''https://cdn/plain-3.png'', ''https://cdn/plain-4.png'']
   \<and> log_get (saved_log (run mixed_world (mixed_config 3) mixed_log)) ''store''
       = [''https://cdn/plain-3.png'', ''https://cdn/plain-4.png'', ''https://cdn/old-1.png'']"
proof -
  have r: "\<forall>i \<le> length [(''shop'', [plain_rule, shop_rule])].
             \<not> MAX_REPO_SIZE_MB \<le> get_repo_size mixed_world i"
    by (simp add: mixed_reach)
  have k: "0 \<le> history_to_keep (mixed_config 3)" by (simp add: mixed_domains)
  have win: "compute_window (max_urls_per_domain (mixed_config 3)) (log_get mixed_log ''store'')
               [''https://cdn/plain-3.png'', ''https://cdn/plain-4.png'']
             = [''https://cdn/plain-3.png'', ''https://cdn/plain-4.png'']"
    by (simp add: mixed_domains log_get_def mixed_log_def compute_window_def)
  have old: "log_get mixed_log ''store'' = [''https://cdn/old-1.png'', ''https://cdn/old-2.png'']"
    by (simp add: log_get_def mixed_log_def)
  note t = history_retention [OF mixed_domains(1) mixed_domains(3) r mixed_lists(2) k,
      where lg = mixed_log, unfolded Let_def win mixed_completed_store]
  from t have "log_get (saved_log (run mixed_world (mixed_config 3) mixed_log)) ''store''
       = [''https://cdn/plain-3.png'', ''https://cdn/plain-4.png'', ''https://cdn/old-1.png'']"
    by (simp add: mixed_domains old)
  then show ?thesis
    using mixed_reach [of 0] mixed_reach [of 1] k mixed_domains(1,3) mixed_lists(2) win
      mixed_completed_store
    by simp
qed

subsection \<open>What a run records for a domain\<close>









subsection \<open>A failing URL in a run\<close>




subsection \<open>The design on the mockup\<close>

lemma fit_size_Inr:
  "fit_size dw dh c = Inr (s, fw, fh) \<longleftrightarrow>
     (\<exists>sx sy pw ph. true_div (cw c) dw = Inr sx \<and> true_div (ch c) dh = Inr sy
        \<and> s = min sx sy
        \<and> int_times_float dw (min sx sy) = Inr pw \<and> int_times_float dh (min sx sy) = Inr ph
        \<and> fw = py_int pw \<and> fh = py_int ph)"
  by (auto simp: fit_size_def Let_def split: sum.splits)

lemma resize_size:
  "resize w im (a, b) = Inr r \<Longrightarrow> width r = a \<and> height r = b \<and> mode r = mode im"
  by (auto simp: resize_def split: if_splits)

lemma process_image_Some:
  "process_image w design_img mockup_img mockup_config wm = Inr (Some out) \<longleftrightarrow>
     (\<exists>cleared trimmed c s fw fh resized.
        remove_background design_img = Inr cleared
      \<and> trim_default cleared = Inr (Some trimmed)
      \<and> mockup_config = Some c
      \<and> fit_size (width trimmed) (height trimmed) c = Inr (s, fw, fh)
      \<and> resize w trimmed (fw, fh) = Inr resized
      \<and> apply_watermark w (paste w mockup_img resized (paste_position c fw)) wm = Inr out)"
  by (auto simp: process_image_def split: sum.splits option.splits prod.splits)

lemma apply_watermark_None: "apply_watermark w final_mockup None = Inr final_mockup"
  by (simp add: apply_watermark_def)

lemma poster_reach: "reach poster_image p \<Longrightarrow> p = (0, 0)"
proof (induction rule: reach.induct)
  case reach_seed
  show ?case by simp
next
  case (reach_step p q)
  then have "adjacent (0, 0) q" by simp
  then have "q = (1, 0) \<or> q = (-1, 0) \<or> q = (0, 1) \<or> q = (0, -1)"
    by (simp add: adjacent_cases)
  with reach_step(3) show ?case
    by (auto simp: seed_like_def poster_image_def inside_def)
qed

lemma poster_remove_background: "remove_background poster_image = Inr poster_cleared"
proof -
  have i: "inside (width poster_image) (height poster_image) (0, 0)"
    by (simp add: inside_def poster_image_def)
  have s: "reach poster_image (0, 0)"
    by (rule reach_seed) (simp add: seed_like_def poster_image_def inside_def)
  have r: "reach poster_image p \<longleftrightarrow> p = (0, 0)" for p
    using poster_reach s by blast
  have "flood (width poster_image) (height poster_image) (pix poster_image (0, 0)) [(0, 0)] {}
          (pix poster_image) = (pix poster_image)((0, 0) := clear)"
    by (rule ext) (simp add: flood_correct [OF flood_inv_init [OF i] refl refl refl] r)
  then show ?thesis using i by (simp add: remove_background_def poster_cleared_def)
qed

lemma poster_opaque:
  "opaque_at poster_cleared (x, y)
     \<longleftrightarrow> 0 \<le> x \<and> x < 100 \<and> 0 \<le> y \<and> y < 50 \<and> (x, y) \<noteq> (0, 0)"
  by (auto simp: opaque_at_def poster_cleared_def poster_image_def inside_def clear_def)

lemma poster_cols: "Min (opaque_cols poster_cleared) = 0" "Max (opaque_cols poster_cleared) = 99"
proof -
  have a: "0 \<le> x \<Longrightarrow> x \<le> 99 \<Longrightarrow> \<exists>y. opaque_at poster_cleared (x, y)" for x
    by (rule exI [of _ 1]) (simp add: poster_opaque)
  have b: "opaque_at poster_cleared (x, y) \<Longrightarrow> 0 \<le> x \<and> x \<le> 99" for x y
    by (simp add: poster_opaque)
  have "opaque_cols poster_cleared = {0..99}"
    using a b by (auto simp: opaque_cols_def)
  then show "Min (opaque_cols poster_cleared) = 0" "Max (opaque_cols poster_cleared) = 99"
    by (auto intro: Min_eqI Max_eqI)
qed

lemma poster_rows: "Min (opaque_rows poster_cleared) = 0" "Max (opaque_rows poster_cleared) = 49"
proof -
  have a: "0 \<le> y \<Longrightarrow> y \<le> 49 \<Longrightarrow> \<exists>x. opaque_at poster_cleared (x, y)" for y
    by (rule exI [of _ 1]) (simp add: poster_opaque)
  have b: "opaque_at poster_cleared (x, y) \<Longrightarrow> 0 \<le> y \<and> y \<le> 49" for x y
    by (simp add: poster_opaque)
  have "opaque_rows poster_cleared = {0..49}"
    using a b by (auto simp: opaque_rows_def)
  then show "Min (opaque_rows poster_cleared) = 0" "Max (opaque_rows poster_cleared) = 49"
    by (auto intro: Min_eqI Max_eqI)
qed

lemma poster_trim: "trim_default poster_cleared = Inr (Some poster_trimmed)"
proof -
  have m: "mode poster_cleared = RGBA" "width poster_cleared = 100" "height poster_cleared = 50"
    by (simp_all add: poster_cleared_def poster_image_def)
  have "opaque_at poster_cleared (1, 1)" by (simp add: poster_opaque)
  then have ne: "opaque_cols poster_cleared \<noteq> {}" by (auto simp: opaque_cols_def)
  show ?thesis
    unfolding trim_Some [OF m(1) ne] poster_cols poster_rows m poster_trimmed_def by simp
qed

lemma poster_resize:
  "resize poster_world poster_trimmed (200, 100) = Inr poster_resized"
  by (simp add: resize_def poster_trimmed_def poster_resized_def)

lemma poster_process_image:
  "process_image poster_world poster_image canvas_image (Some poster_rect) None
     = Inr (Some (paste poster_world canvas_image poster_resized (30, 60)))"
proof -
  have s: "width poster_trimmed = 100" "height poster_trimmed = 50"
    by (simp_all add: poster_trimmed_def)
  have f: "fit_size 100 50 poster_rect = Inr (2, 200, 100)"
    unfolding poster_rect_def by (rule fit_size_example)
  have p: "paste_position poster_rect 200 = (30, 60)"
    by (simp add: paste_position_def poster_rect_def)
  show ?thesis
    by (simp add: process_image_def poster_remove_background poster_trim s f poster_resize p
        apply_watermark_None)
qed

lemma poster_pixels:
  "pix (paste poster_world canvas_image poster_resized (30, 60)) (32, 60) = (0, 0, 0, 255)"
  "pix (paste poster_world canvas_image poster_resized (30, 60)) (30, 60) = (200, 200, 200, 255)"
  "pix (paste poster_world canvas_image poster_resized (30, 60)) (229, 159) = (0, 0, 0, 255)"
  "pix (paste poster_world canvas_image poster_resized (30, 60)) (230, 159) = (200, 200, 200, 255)"
  "pix (paste poster_world canvas_image poster_resized (30, 60)) (229, 160) = (200, 200, 200, 255)"
  "pix (paste poster_world canvas_image poster_resized (30, 60)) (32, 59) = (200, 200, 200, 255)"
  by (simp_all add: paste_def poster_world_def poster_resized_def poster_trimmed_def
      poster_cleared_def poster_image_def canvas_image_def crop_pixels_def inside_def clear_def)

text \<open>
  Claim C7.  \<open>process_image\<close> returns an image exactly when the background removal and the
  trim give a trimmed design, the mockup has coordinates \<open>(x, y, w, h)\<close>, the quotients
  \<open>w / dw\<close> and \<open>h / dh\<close> by the sides of the trimmed design and the products of the sides
  with the scale evaluate, and \<open>resize\<close> and the watermark step raise nothing.  The scale
  is then the smaller of the two quotients, the design is resized to
  \<open>(int(dw * scale), int(dh * scale))\<close> and has that size, and the image handed to the
  watermark step is the mockup with the resized design pasted, with itself as the mask, at
  \<open>x + (w - final_w) // 2\<close>, \<open>y + 20\<close>; without a watermark that image is the result.  The
  margins to the left and to the right of the design in the rectangle differ by at most
  one pixel.  A trimmed design of 100 by 50 in a rectangle of 200 by 200 gets the scale 2
  and the size 200 by 100, and is pasted at \<open>(x, y + 20)\<close>.
\<close>

theorem scale_and_paste:
  "process_image w design_img mockup_img mockup_config wm = Inr (Some out) \<longleftrightarrow>
   (\<exists>cleared trimmed c sx sy pw ph resized.
       remove_background design_img = Inr cleared
     \<and> trim_default cleared = Inr (Some trimmed)
     \<and> mockup_config = Some c
     \<and> true_div (cw c) (width trimmed) = Inr sx
     \<and> true_div (ch c) (height trimmed) = Inr sy
     \<and> int_times_float (width trimmed) (min sx sy) = Inr pw
     \<and> int_times_float (height trimmed) (min sx sy) = Inr ph
     \<and> resize w trimmed (py_int pw, py_int ph) = Inr resized
     \<and> width resized = py_int pw \<and> height resized = py_int ph
     \<and> (let final_x = cx c + (cw c - py_int pw) div 2;
            final_y = cy c + 20;
            final_mockup = mockup_img\<lparr>pix := paste_mask w mockup_img resized (final_x, final_y)\<rparr>
        in apply_watermark w final_mockup wm = Inr out
         \<and> (wm = None \<longrightarrow> out = final_mockup)
         \<and> final_x - cx c \<le> cx c + cw c - (final_x + py_int pw)
         \<and> cx c + cw c - (final_x + py_int pw) \<le> final_x - cx c + 1
         \<and> (width trimmed = 100 \<and> height trimmed = 50 \<and> cw c = 200 \<and> ch c = 200 \<longrightarrow>
              min sx sy = 2 \<and> py_int pw = 200 \<and> py_int ph = 100 \<and> final_x = cx c)))"
  (is "?L \<longleftrightarrow> ?R")
proof
  assume ?L
  then obtain cleared trimmed c s fw fh resized where
    rb: "remove_background design_img = Inr cleared"
    and tr: "trim_default cleared = Inr (Some trimmed)"
    and mc: "mockup_config = Some c"
    and fs: "fit_size (width trimmed) (height trimmed) c = Inr (s, fw, fh)"
    and rs: "resize w trimmed (fw, fh) = Inr resized"
    and aw: "apply_watermark w (paste w mockup_img resized (paste_position c fw)) wm = Inr out"
    unfolding process_image_Some by blast
  from fs obtain sx sy pw ph where
    sx: "true_div (cw c) (width trimmed) = Inr sx"
    and sy: "true_div (ch c) (height trimmed) = Inr sy"
    and pw: "int_times_float (width trimmed) (min sx sy) = Inr pw"
    and ph: "int_times_float (height trimmed) (min sx sy) = Inr ph"
    and fw: "fw = py_int pw" and fh: "fh = py_int ph"
    unfolding fit_size_Inr by blast
  have sz: "width resized = py_int pw" "height resized = py_int ph"
    using resize_size [OF rs] by (simp_all add: fw fh)
  let ?x = "cx c + (cw c - py_int pw) div 2"
  let ?fm = "mockup_img\<lparr>pix := paste_mask w mockup_img resized (?x, cy c + 20)\<rparr>"
  have aw': "apply_watermark w ?fm wm = Inr out"
    using aw by (simp add: paste_def paste_position_def fw)
  have none: "wm = None \<longrightarrow> out = ?fm"
    using aw' by (auto simp: apply_watermark_None)
  have m1: "?x - cx c \<le> cx c + cw c - (?x + py_int pw)" by presburger
  have m2: "cx c + cw c - (?x + py_int pw) \<le> ?x - cx c + 1" by presburger
  have ex: "width trimmed = 100 \<and> height trimmed = 50 \<and> cw c = 200 \<and> ch c = 200 \<longrightarrow>
              min sx sy = 2 \<and> py_int pw = 200 \<and> py_int ph = 100 \<and> ?x = cx c"
  proof
    assume a: "width trimmed = 100 \<and> height trimmed = 50 \<and> cw c = 200 \<and> ch c = 200"
    have x: "sx = 2" using sx a by (simp add: true_div_200_100)
    have y: "sy = 4" using sy a by (simp add: true_div_200_50)
    have w': "pw = 200" using pw a by (simp add: x y int_times_float_100_2)
    have h': "ph = 100" using ph a by (simp add: x y int_times_float_50_2)
    show "min sx sy = 2 \<and> py_int pw = 200 \<and> py_int ph = 100 \<and> ?x = cx c"
      using a by (simp add: x y w' h' py_int_def)
  qed
  show ?R
    unfolding Let_def
    using rb tr mc sx sy pw ph rs [unfolded fw fh] sz
      aw' none m1 m2 ex
    by blast
next
  assume ?R
  then obtain cleared trimmed c sx sy pw ph resized where
    rb: "remove_background design_img = Inr cleared"
    and tr: "trim_default cleared = Inr (Some trimmed)"
    and mc: "mockup_config = Some c"
    and sx: "true_div (cw c) (width trimmed) = Inr sx"
    and sy: "true_div (ch c) (height trimmed) = Inr sy"
    and pw: "int_times_float (width trimmed) (min sx sy) = Inr pw"
    and ph: "int_times_float (height trimmed) (min sx sy) = Inr ph"
    and rs: "resize w trimmed (py_int pw, py_int ph) = Inr resized"
    and aw: "apply_watermark w
               (mockup_img\<lparr>pix := paste_mask w mockup_img resized
                                     (cx c + (cw c - py_int pw) div 2, cy c + 20)\<rparr>) wm
             = Inr out"
    unfolding Let_def by blast
  have fs: "fit_size (width trimmed) (height trimmed) c = Inr (min sx sy, py_int pw, py_int ph)"
    unfolding fit_size_Inr using sx sy pw ph by blast
  have "apply_watermark w (paste w mockup_img resized (paste_position c (py_int pw))) wm
          = Inr out"
    using aw by (simp add: paste_def paste_position_def)
  with rb tr mc fs rs show ?L unfolding process_image_Some by blast
qed

theorem scale_and_paste_witness:
  "(\<exists>out. process_image poster_world poster_image canvas_image (Some poster_rect) None
            = Inr (Some out)
        \<and> out = canvas_image\<lparr>pix := paste_mask poster_world canvas_image poster_resized (30, 60)\<rparr>
        \<and> pix out (32, 60) = (0, 0, 0, 255) \<and> pix out (32, 59) = (200, 200, 200, 255)
        \<and> pix out (229, 159) = (0, 0, 0, 255) \<and> pix out (230, 159) = (200, 200, 200, 255)
        \<and> pix out (229, 160) = (200, 200, 200, 255))
   \<and> width poster_trimmed = 100 \<and> height poster_trimmed = 50
   \<and> cw poster_rect = 200 \<and> ch poster_rect = 200
   \<and> width poster_resized = 200 \<and> height poster_resized = 100"
proof -
  let ?out = "paste poster_world canvas_image poster_resized (30, 60)"
  from scale_and_paste [THEN iffD1, OF poster_process_image]
  obtain cleared trimmed c and sx sy pw ph :: rat and resized where
    rb: "remove_background poster_image = Inr cleared"
    and tr: "trim_default cleared = Inr (Some trimmed)"
    and mc: "Some poster_rect = Some c"
    and rs: "resize poster_world trimmed (py_int pw, py_int ph) = Inr resized"
    and none: "(None :: string option) = None \<longrightarrow>
         ?out = canvas_image\<lparr>pix := paste_mask poster_world canvas_image resized
                                        (cx c + (cw c - py_int pw) div 2, cy c + 20)\<rparr>"
    and ex: "width trimmed = 100 \<and> height trimmed = 50 \<and> cw c = 200 \<and> ch c = 200 \<longrightarrow>
              min sx sy = 2 \<and> py_int pw = 200 \<and> py_int ph = 100
              \<and> cx c + (cw c - py_int pw) div 2 = cx c"
    unfolding Let_def by blast
  have c: "c = poster_rect" using mc by simp
  have cl: "cleared = poster_cleared" using rb by (simp add: poster_remove_background)
  have t: "trimmed = poster_trimmed" using tr by (simp add: cl poster_trim)
  have s: "width poster_trimmed = 100" "height poster_trimmed = 50"
    "cw poster_rect = 200" "ch poster_rect = 200" "cx poster_rect = 30" "cy poster_rect = 40"
    by (simp_all add: poster_trimmed_def poster_rect_def)
  from ex have e: "py_int pw = 200" "py_int ph = 100"
    "cx poster_rect + (cw poster_rect - py_int pw) div 2 = cx poster_rect"
    by (simp_all add: c t s)
  have r: "resized = poster_resized" using rs by (simp add: t e poster_resize)
  have o: "?out = canvas_image\<lparr>pix := paste_mask poster_world canvas_image poster_resized
                                           (30, 60)\<rparr>"
    using none e(3) by (simp add: c r s e(1))
  have z: "width poster_resized = 200" "height poster_resized = 100"
    by (simp_all add: poster_resized_def)
  show ?thesis
    using poster_process_image o poster_pixels s(1-4) z by simp
qed

end
